theory Spec2Isabelle
  imports Main "HOL-Library.List_Lexorder" "HOL-Library.Sublist"
begin

section \<open>Symbols of the base-12 alphabet\<close>

text \<open>
  A C string is modelled by the list of its characters before the terminating NUL, a
  possibly-NULL \<open>char *\<close> by a \<open>string option\<close>.  \<open>short\<close> values only range over
  the symbol codes \<open>0..11\<close> here, so they are natural numbers.
\<close>

definition BASE :: nat where
  "BASE = 12"

text \<open>\<open>isdigit\<close> of the C library, in the C locale: the characters \<open>0\<close> to \<open>9\<close>.\<close>

definition isdigit :: "char \<Rightarrow> bool" where
  "isdigit c = (48 \<le> (of_char c :: nat) \<and> (of_char c :: nat) \<le> 57)"

definition isSymbol :: "char \<Rightarrow> bool" where
  "isSymbol c = (isdigit c \<or> c = CHR ''*'' \<or> c = CHR ''#'')"

definition charToInt :: "char \<Rightarrow> nat" where
  "charToInt c = (if isdigit c then of_char c - 48
                  else if c = CHR ''*'' then 10
                  else 11)"

definition intToChar :: "nat \<Rightarrow> char" where
  "intToChar x = (if x \<le> 9 then char_of (48 + x)
                  else if x = 10 then CHR ''*''
                  else CHR ''#'')"

section \<open>The forwarding trie and the result list\<close>

text \<open>
  \<open>struct PhoneForward\<close>: the forwarding target (NULL when the node holds no rule) and
  the array of child pointers.  A pointer to a node is a \<open>PhoneForward option\<close>.
\<close>

datatype PhoneForward =
  PhoneForward (forwardNumber: "string option") (children: "PhoneForward option list")

text \<open>
  \<open>struct PhoneNumbers\<close>: the array of string pointers and its reported size.  A slot
  holding NULL is \<open>None\<close>.
\<close>

record PhoneNumbers =
  numbers :: "string option list"
  size_pn :: nat

datatype error = NullDeref

text \<open>
  Outcome of one call of \<open>malloc\<close>: the head of the list of outcomes still to come; when
  the list is used up, allocation succeeds.
\<close>

fun malloc_ok :: "bool list \<Rightarrow> bool" where
  "malloc_ok [] = True"
| "malloc_ok (b # bs) = b"

definition phfwdNew :: "bool list \<Rightarrow> PhoneForward option" where
  "phfwdNew al = (if malloc_ok al then Some (PhoneForward None (replicate BASE None))
                  else None)"

fun isNumberOk :: "string option \<Rightarrow> bool" where
  "isNumberOk None = False"
| "isNumberOk (Some num) = (if num = [] then False else list_all isSymbol num)"

section \<open>Adding a rule\<close>

text \<open>
  \<open>addPhoneForward\<close> walks \<open>num1\<close> from index \<open>i\<close>; \<open>num1[i] == 0\<close> is \<open>\<not> i < length num1\<close>.
  The node is changed in place, so the model returns it together with the result, also
  when the result is false.  The first argument holds the outcomes of the \<open>malloc\<close>
  calls to come: the source tests the one in \<open>phfwdNew\<close>, and copies the target into
  the result of the other without a test, which dereferences NULL when it fails.
  Freeing the old target has no counterpart in the model.
\<close>

function addPhoneForward ::
  "bool list \<Rightarrow> PhoneForward \<Rightarrow> string \<Rightarrow> string \<Rightarrow> nat \<Rightarrow> error + (bool \<times> PhoneForward)" where
  "addPhoneForward al pf num1 num2 i =
     (if \<not> i < length num1 then
        (if malloc_ok al then Inr (True, PhoneForward (Some num2) (children pf))
         else Inl NullDeref)
      else
        (case children pf ! charToInt (num1 ! i) of
           None \<Rightarrow>
             (case phfwdNew al of
                None \<Rightarrow>
                  Inr (False, PhoneForward (forwardNumber pf)
                                ((children pf)[charToInt (num1 ! i) := None]))
              | Some c \<Rightarrow>
                  (case addPhoneForward (tl al) c num1 num2 (i + 1) of
                     Inl e \<Rightarrow> Inl e
                   | Inr (r, c') \<Rightarrow>
                       Inr (r, PhoneForward (forwardNumber pf)
                                 ((children pf)[charToInt (num1 ! i) := Some c']))))
         | Some c \<Rightarrow>
             (case addPhoneForward al c num1 num2 (i + 1) of
                Inl e \<Rightarrow> Inl e
              | Inr (r, c') \<Rightarrow>
                  Inr (r, PhoneForward (forwardNumber pf)
                            ((children pf)[charToInt (num1 ! i) := Some c'])))))"
  by pat_completeness auto
termination
  by (relation "measure (\<lambda>(al, pf, num1, num2, i). length num1 - i)") auto

section \<open>Removing a subtree\<close>

text \<open>
  \<open>phoneForwardRemove\<close>: \<open>phfwdDelete\<close> frees a subtree, which the model drops by
  storing NULL in the child slot.  The test \<open>i == lenght - 1\<close> is on \<open>size_t\<close> and is
  written \<open>Suc i = lenght\<close>; \<open>phfwdRemove\<close> calls with \<open>i = 0 < lenght\<close>, and the last
  branch (an index behind the string, which the source would read out of bounds) is
  never reached from there.
\<close>

function phoneForwardRemove ::
  "PhoneForward option \<Rightarrow> string \<Rightarrow> nat \<Rightarrow> nat \<Rightarrow> PhoneForward option" where
  "phoneForwardRemove pf num lenght i =
     (case pf of
        None \<Rightarrow> None
      | Some p \<Rightarrow>
          (if Suc i = lenght then
             Some (PhoneForward (forwardNumber p)
                     ((children p)[charToInt (num ! i) := None]))
           else if Suc i < lenght then
             Some (PhoneForward (forwardNumber p)
                     ((children p)[charToInt (num ! i) :=
                        phoneForwardRemove (children p ! charToInt (num ! i))
                          num lenght (i + 1)]))
           else Some p))"
  by pat_completeness auto
termination
  by (relation "measure (\<lambda>(pf, num, lenght, i). lenght - i)") auto

definition phfwdRemove :: "PhoneForward option \<Rightarrow> string option \<Rightarrow> PhoneForward option" where
  "phfwdRemove pf num =
     (if pf = None \<or> num = None \<or> \<not> isNumberOk num then pf
      else if length (the num) = 0 then pf
      else phoneForwardRemove pf (the num) (length (the num)) 0)"

definition phfwdAdd ::
  "bool list \<Rightarrow> PhoneForward option \<Rightarrow> string option \<Rightarrow> string option
     \<Rightarrow> error + (bool \<times> PhoneForward option)" where
  "phfwdAdd al pf num1 num2 =
     (case pf of
        None \<Rightarrow> Inr (False, None)
      | Some p \<Rightarrow>
          (if \<not> isNumberOk num1 \<or> \<not> isNumberOk num2 \<or> num1 = num2 then Inr (False, Some p)
           else
             (case addPhoneForward al p (the num1) (the num2) 0 of
                Inl e \<Rightarrow> Inl e
              | Inr (result, p') \<Rightarrow>
                  (if \<not> result then Inr (result, phfwdRemove (Some p') num1)
                   else Inr (result, Some p')))))"

section \<open>Forward lookup\<close>

definition phnumNew :: PhoneNumbers where
  "phnumNew = \<lparr>numbers = [None], size_pn = 0\<rparr>"

text \<open>
  \<open>phoneForwardGet\<close> updates the pair \<open>(*pn, *j)\<close> of the last target seen and the
  index where it was seen.  It is only called on non-NULL nodes.
\<close>

function phoneForwardGet ::
  "PhoneForward \<Rightarrow> string \<Rightarrow> string option \<times> nat \<Rightarrow> nat \<Rightarrow> string option \<times> nat" where
  "phoneForwardGet pf num pnj i =
     (let pnj' = (if forwardNumber pf \<noteq> None then (forwardNumber pf, i) else pnj)
      in if i < length num \<and> children pf ! charToInt (num ! i) \<noteq> None
         then phoneForwardGet (the (children pf ! charToInt (num ! i))) num pnj' (i + 1)
         else pnj')"
  by pat_completeness auto
termination
  by (relation "measure (\<lambda>(pf, num, pnj, i). length num - i)") auto

definition phfwdGet :: "PhoneForward option \<Rightarrow> string option \<Rightarrow> PhoneNumbers option" where
  "phfwdGet pf num =
     (case pf of
        None \<Rightarrow> None
      | Some p \<Rightarrow>
          (if \<not> isNumberOk num then Some (phnumNew\<lparr>size_pn := 1\<rparr>)
           else
             (let (pn, j) = phoneForwardGet p (the num) (None, 0) 0;
                  s = (case pn of None \<Rightarrow> [] | Some t \<Rightarrow> t)
              in Some \<lparr>numbers = [Some (s @ drop j (the num))], size_pn = 1\<rparr>)))"

definition phnumGet :: "PhoneNumbers option \<Rightarrow> nat \<Rightarrow> string option" where
  "phnumGet pnum idx =
     (case pnum of
        None \<Rightarrow> None
      | Some pn \<Rightarrow> (if idx \<ge> size_pn pn then None else numbers pn ! idx))"

section \<open>Reverse lookup\<close>

definition isPrefixOf :: "string \<Rightarrow> string \<Rightarrow> bool" where
  "isPrefixOf pre num =
     (if length pre > length num then False
      else list_all (\<lambda>i. pre ! i = num ! i) [0..<length pre])"

function comparator_loop :: "string \<Rightarrow> string \<Rightarrow> nat \<Rightarrow> int" where
  "comparator_loop num1 num2 i =
     (if i < min (length num1) (length num2) then
        (if charToInt (num1 ! i) > charToInt (num2 ! i) then 1
         else if charToInt (num1 ! i) < charToInt (num2 ! i) then - 1
         else comparator_loop num1 num2 (i + 1))
      else if length num1 < length num2 then - 1
      else if length num1 > length num2 then 1
      else 0)"
  by pat_completeness auto
termination
  by (relation "measure (\<lambda>(num1, num2, i). min (length num1) (length num2) - i)") auto

definition comparator :: "string \<Rightarrow> string \<Rightarrow> int" where
  "comparator a b = comparator_loop a b 0"

text \<open>
  \<open>qsort\<close> belongs to the C library, not to this repository.  The C standard only says
  that it leaves the array sorted in ascending order with respect to the comparison
  function; it is modelled by insertion sort.
\<close>

fun qsort_insert :: "('a \<Rightarrow> 'a \<Rightarrow> int) \<Rightarrow> 'a \<Rightarrow> 'a list \<Rightarrow> 'a list" where
  "qsort_insert cmp x [] = [x]"
| "qsort_insert cmp x (y # ys) =
     (if cmp x y \<le> 0 then x # y # ys else y # qsort_insert cmp x ys)"

definition qsort :: "('a \<Rightarrow> 'a \<Rightarrow> int) \<Rightarrow> 'a list \<Rightarrow> 'a list" where
  "qsort cmp xs = foldr (qsort_insert cmp) xs []"

text \<open>
  The write \<open>(*currentNum)[index] = c\<close> into the growable path buffer.  The list holds
  the initialised characters of the buffer; a write just behind them extends it.
\<close>

definition setChar :: "string \<Rightarrow> nat \<Rightarrow> char \<Rightarrow> string" where
  "setChar buf index c = (if index < length buf then buf[index := c] else buf @ [c])"

text \<open>
  The depth-first traversal.  The state is the shared path buffer \<open>*currentNum\<close> and the
  strings \<open>pn->numbers[0..j)\<close> found so far; the capacities of both arrays are not
  modelled.
\<close>

function reverse ::
  "PhoneForward option \<Rightarrow> string \<Rightarrow> nat \<Rightarrow> string \<times> string list \<Rightarrow> string \<times> string list" where
  "reverse None reverseNum index st = st"
| "reverse (Some pf) reverseNum index st =
     fold (\<lambda>ich st'.
             reverse (snd ich) reverseNum (index + 1)
               (setChar (fst st') index (intToChar (fst ich)), snd st'))
       (zip [0..<BASE] (children pf))
       (if forwardNumber pf \<noteq> None \<and> isPrefixOf (the (forwardNumber pf)) reverseNum
        then (fst st, snd st @ [take index (fst st)
                                 @ drop (length (the (forwardNumber pf))) reverseNum])
        else st)"
  by pat_completeness auto
termination
proof (relation "measure (\<lambda>(pf, reverseNum, index, st). size_option size pf)")
  show "wf (measure (\<lambda>(pf, reverseNum, index, st). size_option size pf))"
    by simp
next
  fix pf :: PhoneForward and reverseNum :: string and index :: nat
    and st :: "string \<times> string list" and x :: "nat \<times> PhoneForward option"
    and xa :: "string \<times> string list"
  assume "x \<in> set (zip [0..<BASE] (children pf))"
  then have "snd x \<in> set (children pf)"
    by (metis in_set_zipE prod.collapse)
  then have "size_option size (snd x) \<le> size_list (size_option size) (children pf)"
    by (rule size_list_estimation') simp
  then show "((snd x, reverseNum, index + 1, setChar (fst xa) index (intToChar (fst x)), snd xa),
              (Some pf, reverseNum, index, st))
             \<in> measure (\<lambda>(pf, reverseNum, index, st). size_option size pf)"
    by (cases pf) simp
qed

text \<open>
  The loop of \<open>phfwdReverse\<close> that copies \<open>pn->numbers[i]\<close> for every \<open>i < size - 1\<close>
  whose successor is a different string; the last string is copied after the loop.
\<close>

function dedup_loop :: "string list \<Rightarrow> nat \<Rightarrow> string list \<Rightarrow> string list" where
  "dedup_loop pn i out =
     (if i < length pn - 1 then
        dedup_loop pn (i + 1) (if pn ! i \<noteq> pn ! (i + 1) then out @ [pn ! i] else out)
      else out)"
  by pat_completeness auto
termination
  by (relation "measure (\<lambda>(pn, i, out). length pn - 1 - i)") auto

definition phfwdReverse :: "PhoneForward option \<Rightarrow> string option \<Rightarrow> PhoneNumbers option" where
  "phfwdReverse pf num =
     (case pf of
        None \<Rightarrow> None
      | Some p \<Rightarrow>
          (if \<not> isNumberOk num then Some (phnumNew\<lparr>size_pn := 1\<rparr>)
           else
             (let found = snd (reverse pf (the num) 0 ([], []));
                  pn = qsort comparator (found @ [the num]);
                  ret = dedup_loop pn 0 [] @ [pn ! (length pn - 1)]
              in Some \<lparr>numbers = map Some ret, size_pn = length ret\<rparr>)))"

text \<open>
  The loop of \<open>phfwdGetReverse\<close>.  \<open>strcmp\<close> and \<open>strcpy\<close> dereference their
  arguments, so a NULL string is an error of the model.
\<close>

function getReverse_loop ::
  "PhoneForward option \<Rightarrow> string \<Rightarrow> PhoneNumbers \<Rightarrow> nat \<Rightarrow> string list \<Rightarrow> error + string list" where
  "getReverse_loop pf num pn i ret =
     (if i < size_pn pn then
        (case phfwdGet pf (numbers pn ! i) of
           None \<Rightarrow> getReverse_loop pf num pn (i + 1) ret
         | Some testPn \<Rightarrow>
             (if size_pn testPn \<noteq> 0 then
                (case numbers testPn ! 0 of
                   None \<Rightarrow> Inl NullDeref
                 | Some s \<Rightarrow>
                     (if s = num then
                        (case numbers pn ! i of
                           None \<Rightarrow> Inl NullDeref
                         | Some y \<Rightarrow> getReverse_loop pf num pn (i + 1) (ret @ [y]))
                      else getReverse_loop pf num pn (i + 1) ret))
              else getReverse_loop pf num pn (i + 1) ret))
      else Inr ret)"
  by pat_completeness auto
termination
  by (relation "measure (\<lambda>(pf, num, pn, i, ret). size_pn pn - i)") auto

definition phfwdGetReverse ::
  "PhoneForward option \<Rightarrow> string option \<Rightarrow> error + PhoneNumbers option" where
  "phfwdGetReverse pf num =
     (case pf of
        None \<Rightarrow> Inr None
      | Some p \<Rightarrow>
          (if \<not> isNumberOk num then Inr (Some (phnumNew\<lparr>size_pn := 1\<rparr>))
           else
             (case phfwdReverse pf num of
                None \<Rightarrow> Inl NullDeref
              | Some pn \<Rightarrow>
                  (case getReverse_loop pf (the num) pn 0 [] of
                     Inl e \<Rightarrow> Inl e
                   | Inr ret \<Rightarrow> Inr (Some \<lparr>numbers = map Some ret, size_pn = length ret\<rparr>)))))"

section \<open>Specification vocabulary\<close>

text \<open>
  The node reached from a node along the symbols of a string, and the target stored
  there: the rule registered for that exact prefix.
\<close>

fun node_at :: "PhoneForward \<Rightarrow> string \<Rightarrow> PhoneForward option" where
  "node_at pf [] = Some pf"
| "node_at pf (c # cs) =
     (case children pf ! charToInt c of None \<Rightarrow> None | Some ch \<Rightarrow> node_at ch cs)"

definition target_at :: "PhoneForward \<Rightarrow> string \<Rightarrow> string option" where
  "target_at pf p = (case node_at pf p of None \<Rightarrow> None | Some nd \<Rightarrow> forwardNumber nd)"

text \<open>The walk of \<open>phoneForwardGet\<close>, by recursion on the symbols still to read.\<close>

fun walk :: "PhoneForward \<Rightarrow> string \<Rightarrow> string option \<times> nat \<Rightarrow> nat \<Rightarrow> string option \<times> nat" where
  "walk pf [] pnj i = (if forwardNumber pf \<noteq> None then (forwardNumber pf, i) else pnj)"
| "walk pf (c # cs) pnj i =
     (case children pf ! charToInt c of
        None \<Rightarrow> (if forwardNumber pf \<noteq> None then (forwardNumber pf, i) else pnj)
      | Some ch \<Rightarrow>
          walk ch cs (if forwardNumber pf \<noteq> None then (forwardNumber pf, i) else pnj) (i + 1))"


text \<open>
  The shape every trie built through the interface has: each node has its \<open>BASE\<close> child
  slots (the C array type), and each stored target is a valid number (\<open>phfwdAdd\<close> stores
  no other).
\<close>

fun wf_pf :: "PhoneForward \<Rightarrow> bool" where
  "wf_pf (PhoneForward f chs) =
     ((case f of None \<Rightarrow> True | Some tg \<Rightarrow> isNumberOk (Some tg)) \<and>
      length chs = BASE \<and>
      list_all (\<lambda>c. case c of None \<Rightarrow> True | Some p \<Rightarrow> wf_pf p) chs)"

text \<open>
  What \<open>phoneForwardRemove\<close> leaves of a node, by recursion on the symbols still to
  read.
\<close>

fun prune :: "PhoneForward \<Rightarrow> string \<Rightarrow> PhoneForward" where
  "prune pf [] = pf"
| "prune pf [c] = PhoneForward (forwardNumber pf) ((children pf)[charToInt c := None])"
| "prune pf (c # cs) =
     PhoneForward (forwardNumber pf)
       ((children pf)[charToInt c :=
          (case children pf ! charToInt c of None \<Rightarrow> None | Some ch \<Rightarrow> Some (prune ch cs))])"

text \<open>
  The candidates the traversal \<open>reverse\<close> finds below a node whose root path is
  \<open>path\<close>, in the order it finds them, with the path passed by value.
\<close>

function collect :: "PhoneForward option \<Rightarrow> string \<Rightarrow> string \<Rightarrow> string list" where
  "collect None num path = []"
| "collect (Some pf) num path =
     (if forwardNumber pf \<noteq> None \<and> isPrefixOf (the (forwardNumber pf)) num
      then [path @ drop (length (the (forwardNumber pf))) num] else [])
     @ concat (map (\<lambda>ich. collect (snd ich) num (path @ [intToChar (fst ich)]))
         (zip [0..<BASE] (children pf)))"
  by pat_completeness auto
termination
proof (relation "measure (\<lambda>(pf, num, path). size_option size pf)")
  show "wf (measure (\<lambda>(pf, num, path). size_option size pf))"
    by simp
next
  fix pf :: PhoneForward and num path :: string and x :: "nat \<times> PhoneForward option"
  assume "x \<in> set (zip [0..<BASE] (children pf))"
  then have "snd x \<in> set (children pf)"
    by (metis in_set_zipE prod.collapse)
  then have "size_option size (snd x) \<le> size_list (size_option size) (children pf)"
    by (rule size_list_estimation') simp
  then show "((snd x, num, path @ [intToChar (fst x)]), (Some pf, num, path))
             \<in> measure (\<lambda>(pf, num, path). size_option size pf)"
    by (cases pf) simp
qed

text \<open>
  The order of the specification: strings are compared position by position by symbol
  code, and a proper prefix is smaller than its extensions.
\<close>

fun code_less :: "string \<Rightarrow> string \<Rightarrow> bool" where
  "code_less [] [] = False"
| "code_less [] (y # ys) = True"
| "code_less (x # xs) [] = False"
| "code_less (x # xs) (y # ys) =
     (charToInt x < charToInt y \<or> (charToInt x = charToInt y \<and> code_less xs ys))"

text \<open>
  The candidates of reverse lookup for \<open>n\<close>: what the traversal finds and \<open>n\<close> itself,
  sorted by the code sequences, without adjacent duplicates.
\<close>

definition candidates :: "PhoneForward \<Rightarrow> string \<Rightarrow> string list" where
  "candidates pf n = remdups_adj (sort_key (map charToInt) (collect (Some pf) n [] @ [n]))"

text \<open>
  Example tries: the new trie, the trie holding the single rule \<open>13 \<mapsto> 5\<close>, and
  the like.
\<close>

definition empty_trie :: PhoneForward where
  "empty_trie = PhoneForward None (replicate BASE None)"

definition leaf :: "string \<Rightarrow> PhoneForward" where
  "leaf tg = PhoneForward (Some tg) (replicate BASE None)"

definition inner :: "string option \<Rightarrow> nat \<Rightarrow> PhoneForward \<Rightarrow> PhoneForward" where
  "inner f k ch = PhoneForward f ((replicate BASE None)[k := Some ch])"

definition trie_13_5 :: PhoneForward where
  "trie_13_5 = inner None 1 (inner None 3 (leaf ''5''))"

text \<open>The trie holding the rules \<open>123 \<mapsto> 5\<close> and \<open>1234 \<mapsto> 6\<close>.\<close>

definition trie_123 :: PhoneForward where
  "trie_123 = inner None 1 (inner None 2 (inner None 3 (inner (Some ''5'') 4 (leaf ''6''))))"

text \<open>The trie holding the single rule \<open>1 \<mapsto> 2\<close>.\<close>

definition trie_1_2 :: PhoneForward where
  "trie_1_2 = inner None 1 (leaf ''2'')"

section \<open>Basic facts\<close>

declare addPhoneForward.simps [simp del] phoneForwardRemove.simps [simp del]
  phoneForwardGet.simps [simp del] comparator_loop.simps [simp del]
  dedup_loop.simps [simp del] getReverse_loop.simps [simp del]

lemma isNumberOk_Some [simp]: "isNumberOk (Some n) = (n \<noteq> [] \<and> list_all isSymbol n)"
  by simp

declare isNumberOk.simps(2) [simp del]

lemma target_at_Nil [simp]: "target_at pf [] = forwardNumber pf"
  by (simp add: target_at_def)

lemma target_at_Cons:
  "target_at pf (c # cs) =
     (case children pf ! charToInt c of None \<Rightarrow> None | Some ch \<Rightarrow> target_at ch cs)"
  by (simp add: target_at_def split: option.splits)

lemma phoneForwardGet_walk:
  "i \<le> length num \<Longrightarrow> phoneForwardGet pf num pnj i = walk pf (drop i num) pnj i"
proof (induction pf num pnj i rule: phoneForwardGet.induct)
  case (1 pf num pnj i)
  show ?case
  proof (cases "i < length num")
    case False
    with "1.prems" have "drop i num = []" by simp
    with False show ?thesis
      by (subst phoneForwardGet.simps) simp
  next
    case True
    then have d: "drop i num = num ! i # drop (i + 1) num"
      by (simp add: Cons_nth_drop_Suc)
    show ?thesis
    proof (cases "children pf ! charToInt (num ! i)")
      case None
      with True d show ?thesis
        by (simp add: phoneForwardGet.simps [of pf num pnj i] Let_def)
    next
      case (Some ch)
      with True have "phoneForwardGet pf num pnj i =
          phoneForwardGet ch num
            (if forwardNumber pf \<noteq> None then (forwardNumber pf, i) else pnj) (i + 1)"
        by (simp add: phoneForwardGet.simps [of pf num pnj i] Let_def)
      also have "\<dots> = walk ch (drop (i + 1) num)
            (if forwardNumber pf \<noteq> None then (forwardNumber pf, i) else pnj) (i + 1)"
        using "1.IH" [OF refl _ ] True Some by simp
      finally show ?thesis using d Some by simp
    qed
  qed
qed

lemma walk_none:
  "\<forall>k\<le>length cs. target_at pf (take k cs) = None \<Longrightarrow> walk pf cs pnj i = pnj"
proof (induction cs arbitrary: pf pnj i)
  case Nil
  then show ?case by simp
next
  case (Cons c cs)
  from Cons.prems have f: "forwardNumber pf = None"
    by (metis le0 take_0 target_at_Nil)
  show ?case
  proof (cases "children pf ! charToInt c")
    case None
    with f show ?thesis by simp
  next
    case (Some ch)
    have "\<forall>k\<le>length cs. target_at ch (take k cs) = None"
    proof (intro allI impI)
      fix k assume "k \<le> length cs"
      then have "target_at pf (take (Suc k) (c # cs)) = None"
        using Cons.prems by (metis Suc_le_mono length_Cons)
      then show "target_at ch (take k cs) = None"
        using Some by (simp add: target_at_Cons)
    qed
    then have "walk ch cs pnj (i + 1) = pnj" by (rule Cons.IH)
    with f Some show ?thesis by simp
  qed
qed

lemma walk_some:
  assumes "j \<le> length cs" "target_at pf (take j cs) = Some tg"
    and "\<forall>k. j < k \<and> k \<le> length cs \<longrightarrow> target_at pf (take k cs) = None"
  shows "walk pf cs pnj i = (Some tg, i + j)"
  using assms
proof (induction cs arbitrary: pf pnj i j)
  case Nil
  then show ?case by simp
next
  case (Cons c cs)
  show ?case
  proof (cases j)
    case 0
    with Cons.prems have f: "forwardNumber pf = Some tg" by simp
    show ?thesis
    proof (cases "children pf ! charToInt c")
      case None
      with f 0 show ?thesis by simp
    next
      case (Some ch)
      have "\<forall>k\<le>length cs. target_at ch (take k cs) = None"
      proof (intro allI impI)
        fix k assume "k \<le> length cs"
        then have "target_at pf (take (Suc k) (c # cs)) = None"
          using Cons.prems(3) [rule_format, of "Suc k"] 0 by simp
        then show "target_at ch (take k cs) = None"
          using Some by (simp add: target_at_Cons)
      qed
      then have "walk ch cs (Some tg, i) (i + 1) = (Some tg, i)" by (rule walk_none)
      with f Some 0 show ?thesis by simp
    qed
  next
    case (Suc j')
    with Cons.prems have t: "target_at pf (c # take j' cs) = Some tg" by simp
    then obtain ch where ch: "children pf ! charToInt c = Some ch"
      and t': "target_at ch (take j' cs) = Some tg"
      by (auto simp: target_at_Cons split: option.splits)
    have later: "\<forall>k. j' < k \<and> k \<le> length cs \<longrightarrow> target_at ch (take k cs) = None"
    proof (intro allI impI)
      fix k assume "j' < k \<and> k \<le> length cs"
      then have "target_at pf (take (Suc k) (c # cs)) = None"
        using Cons.prems(3) [rule_format, of "Suc k"] Suc by simp
      then show "target_at ch (take k cs) = None"
        using ch by (simp add: target_at_Cons)
    qed
    from Cons.prems Suc have "j' \<le> length cs" by simp
    then have "walk ch cs (if forwardNumber pf \<noteq> None then (forwardNumber pf, i) else pnj) (i + 1)
        = (Some tg, i + 1 + j')"
      using t' later by (rule Cons.IH)
    with ch Suc show ?thesis by simp
  qed
qed


lemma isdigit_simps [simp]:
  "isdigit CHR ''0''" "isdigit CHR ''1''" "isdigit CHR ''2''" "isdigit CHR ''3''"
  "isdigit CHR ''4''" "isdigit CHR ''5''" "isdigit CHR ''6''" "isdigit CHR ''7''"
  "isdigit CHR ''8''" "isdigit CHR ''9''" "\<not> isdigit CHR ''*''" "\<not> isdigit CHR ''#''"
  by (simp_all add: isdigit_def)

lemma charToInt_simps [simp]:
  "charToInt CHR ''0'' = 0" "charToInt CHR ''1'' = 1" "charToInt CHR ''2'' = 2"
  "charToInt CHR ''3'' = 3" "charToInt CHR ''4'' = 4" "charToInt CHR ''5'' = 5"
  "charToInt CHR ''6'' = 6" "charToInt CHR ''7'' = 7" "charToInt CHR ''8'' = 8"
  "charToInt CHR ''9'' = 9" "charToInt CHR ''*'' = 10" "charToInt CHR ''#'' = 11"
  by (simp_all add: charToInt_def isdigit_def)

lemma replicate_BASE:
  "replicate BASE x = [x, x, x, x, x, x, x, x, x, x, x, x]"
  by (simp add: BASE_def eval_nat_numeral)

text \<open>
  Claim C1.  On a non-NULL trie and a valid number \<open>n\<close>, \<open>phfwdGet\<close> returns a list
  of exactly one string \<open>r\<close>.  When no node on the root path of \<open>n\<close> holds a target,
  \<open>r\<close> is \<open>n\<close> itself; otherwise, for the deepest node on that path holding a target,
  reached after \<open>j\<close> symbols, \<open>r\<close> is that target followed by the rest of \<open>n\<close> after
  its first \<open>j\<close> symbols.
\<close>

theorem phfwdGet_longest_prefix:
  assumes "isNumberOk (Some n)"
  shows "\<exists>r. phfwdGet (Some pf) (Some n) = Some \<lparr>numbers = [Some r], size_pn = 1\<rparr> \<and>
           ((\<forall>k\<le>length n. target_at pf (take k n) = None) \<longrightarrow> r = n) \<and>
           (\<forall>j tg. j \<le> length n \<and> target_at pf (take j n) = Some tg \<and>
                    (\<forall>k. j < k \<and> k \<le> length n \<longrightarrow> target_at pf (take k n) = None)
                    \<longrightarrow> r = tg @ drop j n)"
proof -
  obtain pn j where w: "walk pf n (None, 0) 0 = (pn, j)"
    by fastforce
  have g: "phoneForwardGet pf n (None, 0) 0 = (pn, j)"
    using phoneForwardGet_walk [of 0 n pf "(None, 0)"] w by simp
  let ?r = "(case pn of None \<Rightarrow> [] | Some t \<Rightarrow> t) @ drop j n"
  have "phfwdGet (Some pf) (Some n) = Some \<lparr>numbers = [Some ?r], size_pn = 1\<rparr>"
    using assms g by (auto simp: phfwdGet_def split: if_splits)
  moreover have "(\<forall>k\<le>length n. target_at pf (take k n) = None) \<longrightarrow> ?r = n"
    using walk_none [of n pf "(None, 0)" 0] w by auto
  moreover have "\<forall>j' tg. j' \<le> length n \<and> target_at pf (take j' n) = Some tg \<and>
        (\<forall>k. j' < k \<and> k \<le> length n \<longrightarrow> target_at pf (take k n) = None)
        \<longrightarrow> ?r = tg @ drop j' n"
  proof (intro allI impI)
    fix j' tg
    assume a: "j' \<le> length n \<and> target_at pf (take j' n) = Some tg \<and>
        (\<forall>k. j' < k \<and> k \<le> length n \<longrightarrow> target_at pf (take k n) = None)"
    then have "walk pf n (None, 0) 0 = (Some tg, 0 + j')"
      by (intro walk_some) simp_all
    with w show "?r = tg @ drop j' n" by auto
  qed
  ultimately show ?thesis by blast
qed

theorem phfwdGet_longest_prefix_witness:
  "isNumberOk (Some ''1313'') \<and> target_at trie_13_5 (take 2 ''1313'') = Some ''5'' \<and>
   phfwdGet (Some trie_13_5) (Some ''1313'') = Some \<lparr>numbers = [Some ''513''], size_pn = 1\<rparr>"
proof -
  have ok: "isNumberOk (Some ''1313'')"
    by (simp add: isSymbol_def)
  have t2: "target_at trie_13_5 (take 2 ''1313'') = Some ''5''"
    by (simp add: trie_13_5_def inner_def leaf_def target_at_def replicate_BASE)
  have later: "\<forall>k. 2 < k \<and> k \<le> length ''1313'' \<longrightarrow> target_at trie_13_5 (take k ''1313'') = None"
  proof (intro allI impI)
    fix k :: nat
    assume "2 < k \<and> k \<le> length ''1313''"
    then have "k = 3 \<or> k = 4" by auto
    then show "target_at trie_13_5 (take k ''1313'') = None"
      by (auto simp: trie_13_5_def inner_def leaf_def target_at_def replicate_BASE eval_nat_numeral)
  qed
  from phfwdGet_longest_prefix [OF ok, of trie_13_5] obtain r where
    r: "phfwdGet (Some trie_13_5) (Some ''1313'') = Some \<lparr>numbers = [Some r], size_pn = 1\<rparr>"
    and d: "\<forall>j tg. j \<le> length ''1313'' \<and> target_at trie_13_5 (take j ''1313'') = Some tg \<and>
                (\<forall>k. j < k \<and> k \<le> length ''1313'' \<longrightarrow> target_at trie_13_5 (take k ''1313'') = None)
                \<longrightarrow> r = tg @ drop j ''1313''"
    by blast
  from d [rule_format, of 2 "''5''"] t2 later have "r = ''513''" by simp
  with ok t2 r show ?thesis by simp
qed

lemma phnumGet_invalid [simp]:
  "phnumGet (Some (phnumNew\<lparr>size_pn := 1\<rparr>)) 0 = None"
  by (simp add: phnumGet_def phnumNew_def)

text \<open>
  Claim C9.  On a non-NULL trie and an invalid number (NULL, empty, or with a character
  outside the alphabet), \<open>phfwdGet\<close>, \<open>phfwdReverse\<close> and \<open>phfwdGetReverse\<close> all
  return a list of reported size 1 whose only slot holds NULL, so that \<open>phnumGet\<close> at
  index 0 yields NULL; none of them fails.
\<close>

theorem invalid_number_degenerate:
  assumes "\<not> isNumberOk num"
  shows "phfwdGet (Some pf) num = Some \<lparr>numbers = [None], size_pn = 1\<rparr> \<and>
         phfwdReverse (Some pf) num = Some \<lparr>numbers = [None], size_pn = 1\<rparr> \<and>
         phfwdGetReverse (Some pf) num = Inr (Some \<lparr>numbers = [None], size_pn = 1\<rparr>) \<and>
         phnumGet (Some \<lparr>numbers = [None], size_pn = 1\<rparr>) 0 = None"
  using assms
  by (simp add: phfwdGet_def phfwdReverse_def phfwdGetReverse_def phnumNew_def phnumGet_def)

theorem invalid_number_degenerate_witness:
  "\<not> isNumberOk (Some ''12a'') \<and> \<not> isNumberOk (Some []) \<and> \<not> isNumberOk None \<and>
   phfwdGet (Some trie_13_5) (Some ''12a'') = Some \<lparr>numbers = [None], size_pn = 1\<rparr> \<and>
   phfwdReverse (Some trie_13_5) (Some []) = Some \<lparr>numbers = [None], size_pn = 1\<rparr> \<and>
   phfwdGetReverse (Some trie_13_5) None = Inr (Some \<lparr>numbers = [None], size_pn = 1\<rparr>) \<and>
   phnumGet (phfwdGet (Some trie_13_5) (Some ''12a'')) 0 = None"
proof -
  have a: "\<not> isNumberOk (Some ''12a'')"
    by (simp add: isSymbol_def isdigit_def)
  have b: "\<not> isNumberOk (Some [])" and c: "\<not> isNumberOk None"
    by simp_all
  show ?thesis
    using a b c invalid_number_degenerate [OF a, of trie_13_5]
      invalid_number_degenerate [OF b, of trie_13_5]
      invalid_number_degenerate [OF c, of trie_13_5]
    by simp
qed

text \<open>
  Claim C7.  \<open>phfwdAdd\<close> returns false and leaves the trie as it is whenever one of the
  two numbers is invalid or both are equal.  In particular adding \<open>600 \<mapsto> 600\<close> is
  rejected, and on a new trie \<open>600\<close> then still resolves to \<open>600\<close>.
\<close>

theorem phfwdAdd_rejects:
  "(\<not> isNumberOk num1 \<or> \<not> isNumberOk num2 \<or> num1 = num2
      \<longrightarrow> phfwdAdd al pf num1 num2 = Inr (False, pf)) \<and>
   phfwdAdd al pf (Some ''600'') (Some ''600'') = Inr (False, pf) \<and>
   (\<exists>pf'. phfwdAdd al (phfwdNew []) (Some ''600'') (Some ''600'') = Inr (False, pf') \<and>
          phfwdGet pf' (Some ''600'') = Some \<lparr>numbers = [Some ''600''], size_pn = 1\<rparr>)"
proof -
  have rej: "phfwdAdd al pf num1 num2 = Inr (False, pf)"
    if "\<not> isNumberOk num1 \<or> \<not> isNumberOk num2 \<or> num1 = num2" for al pf num1 num2
    using that by (cases pf) (auto simp: phfwdAdd_def)
  have "phfwdGet (phfwdNew []) (Some ''600'') = Some \<lparr>numbers = [Some ''600''], size_pn = 1\<rparr>"
    by (simp add: phfwdNew_def phfwdGet_def replicate_BASE isSymbol_def phoneForwardGet.simps)
  with rej show ?thesis by blast
qed

theorem phfwdAdd_rejects_witness:
  "\<not> isNumberOk (Some ''6x0'') \<and>
   phfwdAdd [] (Some trie_13_5) (Some ''6x0'') (Some ''5'') = Inr (False, Some trie_13_5) \<and>
   phfwdAdd [] (Some trie_13_5) (Some ''13'') None = Inr (False, Some trie_13_5) \<and>
   phfwdAdd [] (Some trie_13_5) (Some ''600'') (Some ''600'') = Inr (False, Some trie_13_5)"
proof -
  have a: "\<not> isNumberOk (Some ''6x0'')"
    by (simp add: isSymbol_def isdigit_def)
  show ?thesis
    using a phfwdAdd_rejects [of "Some ''6x0''" "Some ''5''" "[]" "Some trie_13_5"]
      phfwdAdd_rejects [of "Some ''13''" None "[]" "Some trie_13_5"]
    by simp
qed


section \<open>Removal prunes a subtree\<close>

lemma charToInt_less: "charToInt c < BASE"
  by (auto simp: charToInt_def BASE_def isdigit_def)

lemma charToInt_inj:
  assumes "isSymbol a" "isSymbol b" "charToInt a = charToInt b"
  shows "a = b"
proof -
  have d: "of_char c - 48 \<le> (9::nat)" if "isdigit c" for c
    using that by (auto simp: isdigit_def)
  have e: "c = d" if "isdigit c" "isdigit d" "(of_char c :: nat) - 48 = of_char d - 48" for c d
  proof -
    from that have "(of_char c :: nat) = of_char d"
      unfolding isdigit_def by linarith
    then show ?thesis by simp
  qed
  show ?thesis
    using assms d [of a] d [of b] e [of a b]
    by (auto simp: isSymbol_def charToInt_def split: if_splits)
qed

lemma wf_pf_child:
  "wf_pf pf \<Longrightarrow> children pf ! k = Some ch \<Longrightarrow> k < BASE \<Longrightarrow> wf_pf ch"
  by (cases pf) (force simp: list_all_length split: option.splits)

lemma wf_pf_length: "wf_pf pf \<Longrightarrow> length (children pf) = BASE"
  by (cases pf) simp

lemma wf_pf_update:
  "wf_pf pf \<Longrightarrow> (case c of None \<Rightarrow> True | Some p \<Rightarrow> wf_pf p)
     \<Longrightarrow> wf_pf (PhoneForward (forwardNumber pf) ((children pf)[k := c]))"
  by (cases pf) (auto simp: list_all_iff dest!: set_update_subset_insert [THEN subsetD])

declare wf_pf.simps [simp del]

lemma phoneForwardRemove_prune:
  "i < length num \<Longrightarrow>
   phoneForwardRemove (Some pf) num (length num) i = Some (prune pf (drop i num))"
proof (induction "length num - i" arbitrary: i pf)
  case 0
  then show ?case by simp
next
  case (Suc m)
  show ?case
  proof (cases "Suc i = length num")
    case True
    then have "drop i num = [num ! i]"
      by (metis Cons_nth_drop_Suc Suc.prems drop_all order_refl)
    with True show ?thesis
      by (subst phoneForwardRemove.simps) simp
  next
    case False
    with Suc.prems have lt: "Suc i < length num" by simp
    then obtain c' rest where d': "drop (Suc i) num = c' # rest"
      by (metis Cons_nth_drop_Suc)
    then have d: "drop i num = num ! i # c' # rest"
      by (metis Cons_nth_drop_Suc Suc.prems)
    have m: "m = length num - Suc i" using Suc.hyps(2) by simp
    show ?thesis
    proof (cases "children pf ! charToInt (num ! i)")
      case None
      with False lt d show ?thesis
        by (subst phoneForwardRemove.simps) (simp add: phoneForwardRemove.simps [of None])
    next
      case (Some ch)
      have "phoneForwardRemove (Some ch) num (length num) (Suc i) = Some (prune ch (drop (Suc i) num))"
        using Suc.hyps(1) [OF m lt] .
      with False lt d d' Some show ?thesis
        by (subst phoneForwardRemove.simps) simp
    qed
  qed
qed

lemma prune_absent: "cs \<noteq> [] \<Longrightarrow> node_at pf cs = None \<Longrightarrow> prune pf cs = pf"
proof (induction pf cs rule: prune.induct)
  case (1 pf)
  then show ?case by simp
next
  case (2 pf c)
  then have "children pf ! charToInt c = None"
    by (simp split: option.splits)
  then have "(children pf)[charToInt c := None] = children pf"
    by (metis list_update_id)
  then show ?case by simp
next
  case (3 pf c v va)
  show ?case
  proof (cases "children pf ! charToInt c")
    case None
    then have "(children pf)[charToInt c := None] = children pf"
      by (metis list_update_id)
    with None show ?thesis by simp
  next
    case (Some ch)
    with 3 have "prune ch (v # va) = ch" by simp
    moreover have "(children pf)[charToInt c := Some ch] = children pf"
      using Some by (metis list_update_id)
    ultimately show ?thesis using Some by simp
  qed
qed

lemma wf_pf_prune: "wf_pf pf \<Longrightarrow> wf_pf (prune pf cs)"
proof (induction pf cs rule: prune.induct)
  case (1 pf)
  then show ?case by simp
next
  case (2 pf c)
  then show ?case by (simp add: wf_pf_update)
next
  case (3 pf c v va)
  show ?case
  proof (cases "children pf ! charToInt c")
    case None
    with 3 show ?thesis by (simp add: wf_pf_update)
  next
    case (Some ch)
    with 3 have "wf_pf (prune ch (v # va))"
      using wf_pf_child [OF "3.prems" Some charToInt_less] by simp
    with 3 Some show ?thesis by (simp add: wf_pf_update)
  qed
qed

lemma node_at_prune_prefix:
  "wf_pf pf \<Longrightarrow> cs \<noteq> [] \<Longrightarrow> prefix cs q \<Longrightarrow> node_at (prune pf cs) q = None"
proof (induction pf cs arbitrary: q rule: prune.induct)
  case (1 pf)
  then show ?case by simp
next
  case (2 pf c)
  then obtain ds where "q = c # ds" by (auto simp: prefix_def)
  then show ?case
    using 2 charToInt_less [of c] by (simp add: wf_pf_length)
next
  case (3 pf c v va)
  then obtain ds where q: "q = c # ds" and p: "prefix (v # va) ds"
    by (auto simp: prefix_def)
  show ?case
  proof (cases "children pf ! charToInt c")
    case None
    with q show ?thesis
      using 3 charToInt_less [of c] by (simp add: wf_pf_length)
  next
    case (Some ch)
    have "node_at (prune ch (v # va)) ds = None"
      using "3.IH" [OF Some _ _ p] wf_pf_child [OF "3.prems"(1) Some charToInt_less] by simp
    with q Some show ?thesis
      using 3 charToInt_less [of c] by (simp add: wf_pf_length)
  qed
qed

lemma target_at_prune_other:
  "wf_pf pf \<Longrightarrow> cs \<noteq> [] \<Longrightarrow> list_all isSymbol cs \<Longrightarrow> list_all isSymbol q \<Longrightarrow>
   \<not> prefix cs q \<Longrightarrow> target_at (prune pf cs) q = target_at pf q"
proof (induction pf cs arbitrary: q rule: prune.induct)
  case (1 pf)
  then show ?case by simp
next
  case (2 pf c)
  show ?case
  proof (cases q)
    case Nil
    then show ?thesis by simp
  next
    case (Cons d ds)
    with 2 have "d \<noteq> c" by simp
    with 2 Cons have "charToInt d \<noteq> charToInt c"
      using charToInt_inj [of d c] by auto
    with Cons show ?thesis by (simp add: target_at_Cons)
  qed
next
  case (3 pf c v va)
  show ?case
  proof (cases q)
    case Nil
    then show ?thesis by simp
  next
    case (Cons d ds)
    show ?thesis
    proof (cases "d = c")
      case False
      with 3 Cons have "charToInt d \<noteq> charToInt c"
        using charToInt_inj [of d c] by auto
      with Cons show ?thesis by (simp add: target_at_Cons)
    next
      case True
      with "3.prems" Cons have np: "\<not> prefix (v # va) ds" by simp
      show ?thesis
      proof (cases "children pf ! charToInt c")
        case None
        with Cons True show ?thesis
          using "3.prems"(1) charToInt_less [of c] by (simp add: target_at_Cons wf_pf_length)
      next
        case (Some ch)
        have "target_at (prune ch (v # va)) ds = target_at ch ds"
          using "3.IH" [OF Some _ _ _ _ np] "3.prems" Cons
            wf_pf_child [OF "3.prems"(1) Some charToInt_less] by simp
        with Cons True Some show ?thesis
          using "3.prems"(1) charToInt_less [of c] by (simp add: target_at_Cons wf_pf_length)
      qed
    qed
  qed
qed

lemma phfwdRemove_prune:
  "isNumberOk (Some n) \<Longrightarrow> phfwdRemove (Some pf) (Some n) = Some (prune pf n)"
  using phoneForwardRemove_prune [of 0 n pf]
  by (auto simp: phfwdRemove_def split: if_splits)

text \<open>
  Claim C5.  On a well-formed trie and a valid number \<open>n\<close>, \<open>phfwdRemove\<close> leaves no
  node, hence no rule, at \<open>n\<close> or at any string extending \<open>n\<close>, and the rule of every
  other prefix is as before.  It changes nothing when the number is invalid or when the
  trie has no node at the path of \<open>n\<close>.
\<close>

theorem phfwdRemove_subtree:
  "(isNumberOk (Some n) \<and> wf_pf pf \<longrightarrow>
      (\<exists>pf'. phfwdRemove (Some pf) (Some n) = Some pf' \<and> wf_pf pf' \<and>
         (\<forall>q. prefix n q \<longrightarrow> node_at pf' q = None \<and> target_at pf' q = None) \<and>
         (\<forall>q. list_all isSymbol q \<and> \<not> prefix n q \<longrightarrow> target_at pf' q = target_at pf q))) \<and>
   (\<not> isNumberOk num \<longrightarrow> phfwdRemove (Some pf) num = Some pf) \<and>
   (isNumberOk (Some n) \<and> node_at pf n = None \<longrightarrow> phfwdRemove (Some pf) (Some n) = Some pf)"
proof (intro conjI impI)
  assume a: "isNumberOk (Some n) \<and> wf_pf pf"
  then have r: "phfwdRemove (Some pf) (Some n) = Some (prune pf n)"
    by (simp only: phfwdRemove_prune)
  from a have n: "n \<noteq> []" "list_all isSymbol n" and wf: "wf_pf pf"
    by (simp_all split: if_splits)
  have "\<forall>q. prefix n q \<longrightarrow> node_at (prune pf n) q = None \<and> target_at (prune pf n) q = None"
    using node_at_prune_prefix [OF wf n(1)] by (simp add: target_at_def)
  moreover have "\<forall>q. list_all isSymbol q \<and> \<not> prefix n q
      \<longrightarrow> target_at (prune pf n) q = target_at pf q"
    using target_at_prune_other [OF wf n] by blast
  ultimately show "\<exists>pf'. phfwdRemove (Some pf) (Some n) = Some pf' \<and> wf_pf pf' \<and>
         (\<forall>q. prefix n q \<longrightarrow> node_at pf' q = None \<and> target_at pf' q = None) \<and>
         (\<forall>q. list_all isSymbol q \<and> \<not> prefix n q \<longrightarrow> target_at pf' q = target_at pf q)"
    using r wf_pf_prune [OF wf] by blast
next
  assume "\<not> isNumberOk num"
  then show "phfwdRemove (Some pf) num = Some pf"
    by (simp add: phfwdRemove_def)
next
  assume a: "isNumberOk (Some n) \<and> node_at pf n = None"
  then have "n \<noteq> []" by (simp split: if_splits)
  with a have "prune pf n = pf"
    by (intro prune_absent) simp_all
  with a show "phfwdRemove (Some pf) (Some n) = Some pf"
    by (simp only: phfwdRemove_prune)
qed

lemma upt_BASE: "[0..<BASE] = [0, 1, 2, 3, 4, 5, 6, 7, 8, 9, 10, 11]"
  by (simp add: BASE_def upt_rec)

lemma wf_pf_leaf: "isNumberOk (Some tg) \<Longrightarrow> wf_pf (leaf tg)"
  by (simp add: leaf_def wf_pf.simps list_all_iff)

lemma wf_pf_inner:
  "wf_pf ch \<Longrightarrow> (case f of None \<Rightarrow> True | Some tg \<Rightarrow> isNumberOk (Some tg))
     \<Longrightarrow> wf_pf (inner f k ch)"
  by (auto simp: inner_def wf_pf.simps list_all_iff dest!: set_update_subset_insert [THEN subsetD])

lemma wf_pf_trie_123: "wf_pf trie_123"
  by (simp add: trie_123_def wf_pf_inner wf_pf_leaf isSymbol_def)

theorem phfwdRemove_subtree_witness:
  "isNumberOk (Some ''123'') \<and> wf_pf trie_123 \<and> \<not> isNumberOk (Some ''12x'') \<and>
   node_at trie_123 ''77'' = None \<and>
   (\<exists>pf'. phfwdRemove (Some trie_123) (Some ''123'') = Some pf' \<and>
      target_at pf' ''123'' = None \<and> target_at pf' ''1234'' = None \<and>
      phfwdGet (Some pf') (Some ''123'') = Some \<lparr>numbers = [Some ''123''], size_pn = 1\<rparr> \<and>
      phfwdGet (Some pf') (Some ''1234'') = Some \<lparr>numbers = [Some ''1234''], size_pn = 1\<rparr>) \<and>
   phfwdRemove (Some trie_123) (Some ''12x'') = Some trie_123 \<and>
   phfwdRemove (Some trie_123) (Some ''77'') = Some trie_123"
proof -
  have ok: "isNumberOk (Some ''123'')" "isNumberOk (Some ''77'')"
    by (simp_all add: isSymbol_def)
  have bad: "\<not> isNumberOk (Some ''12x'')"
    by (simp add: isSymbol_def isdigit_def)
  have absent: "node_at trie_123 ''77'' = None"
    by (simp add: trie_123_def inner_def leaf_def replicate_BASE)
  from phfwdRemove_subtree [of "''123''" trie_123 "Some ''12x''"] ok wf_pf_trie_123
  obtain pf' where r: "phfwdRemove (Some trie_123) (Some ''123'') = Some pf'"
    and gone: "\<forall>q. prefix ''123'' q \<longrightarrow> node_at pf' q = None \<and> target_at pf' q = None"
    by blast
  have pf': "pf' = inner None 1 (inner None 2 (PhoneForward None (replicate BASE None)))"
    using r ok
    by (simp add: phfwdRemove_def trie_123_def inner_def leaf_def replicate_BASE
        phoneForwardRemove.simps)
  have g: "phfwdGet (Some pf') (Some ''123'') = Some \<lparr>numbers = [Some ''123''], size_pn = 1\<rparr>"
    "phfwdGet (Some pf') (Some ''1234'') = Some \<lparr>numbers = [Some ''1234''], size_pn = 1\<rparr>"
    by (simp_all add: pf' phfwdGet_def inner_def replicate_BASE isSymbol_def
        phoneForwardGet.simps)
  from gone have "target_at pf' ''123'' = None" "target_at pf' ''1234'' = None"
    by simp_all
  with r g ok bad absent wf_pf_trie_123
    phfwdRemove_subtree [of "''77''" trie_123 "Some ''12x''"]
  show ?thesis by simp
qed

section \<open>Adding a rule changes one target\<close>

lemma wf_pf_fresh: "wf_pf (PhoneForward None (replicate BASE None))"
  by (simp add: wf_pf.simps list_all_iff)

lemma target_at_fresh: "target_at (PhoneForward None (replicate BASE None)) q = None"
  by (cases q) (simp_all add: target_at_Cons charToInt_less)

lemma wf_pf_set_target:
  "wf_pf pf \<Longrightarrow> isNumberOk (Some tg) \<Longrightarrow> wf_pf (PhoneForward (Some tg) (children pf))"
  by (cases pf) (simp add: wf_pf.simps)

lemma graft_props:
  assumes wf: "wf_pf pf" and c: "isSymbol c" and wfc: "wf_pf c'"
    and tg: "\<forall>q. list_all isSymbol q \<longrightarrow>
               target_at c' q = (if r \<and> q = rest then Some num2 else target_at pf (c # q))"
    and nd: "\<not> r \<longrightarrow> node_at c' rest = None"
  shows "wf_pf (PhoneForward (forwardNumber pf) ((children pf)[charToInt c := Some c'])) \<and>
         (\<forall>q. list_all isSymbol q \<longrightarrow>
            target_at (PhoneForward (forwardNumber pf) ((children pf)[charToInt c := Some c'])) q =
              (if r \<and> q = c # rest then Some num2 else target_at pf q)) \<and>
         (\<not> r \<longrightarrow>
            node_at (PhoneForward (forwardNumber pf) ((children pf)[charToInt c := Some c']))
              (c # rest) = None)"
proof (intro conjI allI impI)
  let ?pf' = "PhoneForward (forwardNumber pf) ((children pf)[charToInt c := Some c'])"
  have k: "charToInt c < length (children pf)"
    using wf charToInt_less [of c] by (simp add: wf_pf_length)
  show "wf_pf ?pf'"
    using wf wfc by (simp add: wf_pf_update)
  show "node_at ?pf' (c # rest) = None" if "\<not> r"
    using that nd k by simp
  show "target_at ?pf' q = (if r \<and> q = c # rest then Some num2 else target_at pf q)"
    if q: "list_all isSymbol q" for q
  proof (cases q)
    case Nil
    then show ?thesis by simp
  next
    case (Cons d ds)
    show ?thesis
    proof (cases "d = c")
      case True
      with Cons q have "list_all isSymbol ds" by simp
      with tg have "target_at c' ds = (if r \<and> ds = rest then Some num2 else target_at pf (c # ds))"
        by blast
      with Cons True k show ?thesis
        by (simp add: target_at_Cons)
    next
      case False
      with Cons q c have "charToInt d \<noteq> charToInt c"
        using charToInt_inj [of d c] by auto
      with Cons False show ?thesis
        by (simp add: target_at_Cons)
    qed
  qed
qed

lemma addPhoneForward_props:
  assumes num1: "list_all isSymbol num1" and num2: "isNumberOk (Some num2)"
  shows "i \<le> length num1 \<Longrightarrow> wf_pf pf \<Longrightarrow>
     addPhoneForward al pf num1 num2 i = Inr (r, pf') \<Longrightarrow>
     wf_pf pf' \<and>
     (\<forall>q. list_all isSymbol q \<longrightarrow>
        target_at pf' q = (if r \<and> q = drop i num1 then Some num2 else target_at pf q)) \<and>
     (\<not> r \<longrightarrow> node_at pf' (drop i num1) = None)"
proof (induction "length num1 - i" arbitrary: i pf al pf')
  case 0
  then have d: "drop i num1 = []" by simp
  from 0 have "\<not> i < length num1" by simp
  then have "addPhoneForward al pf num1 num2 i =
      (if malloc_ok al then Inr (True, PhoneForward (Some num2) (children pf)) else Inl NullDeref)"
    by (subst addPhoneForward.simps) simp
  with "0.prems"(3) have r: "r" and pf': "pf' = PhoneForward (Some num2) (children pf)"
    by (auto split: if_splits)
  have "target_at pf' q = (if q = [] then Some num2 else target_at pf q)" for q
    by (cases q) (simp_all add: pf' target_at_Cons)
  with r d pf' show ?case
    using wf_pf_set_target [OF "0.prems"(2) num2] by simp
next
  case (Suc m)
  then have lt: "i < length num1" by simp
  let ?c = "num1 ! i"
  let ?k = "charToInt ?c"
  have d: "drop i num1 = ?c # drop (Suc i) num1"
    using lt by (simp add: Cons_nth_drop_Suc)
  have c: "isSymbol ?c"
    using num1 lt by (simp add: list_all_length)
  have m: "m = length num1 - Suc i" and le: "Suc i \<le> length num1"
    using Suc.hyps(2) lt by simp_all
  have step: "addPhoneForward al pf num1 num2 i =
      (case children pf ! ?k of
         None \<Rightarrow>
           (case phfwdNew al of
              None \<Rightarrow> Inr (False, PhoneForward (forwardNumber pf) ((children pf)[?k := None]))
            | Some c \<Rightarrow>
                (case addPhoneForward (tl al) c num1 num2 (i + 1) of
                   Inl e \<Rightarrow> Inl e
                 | Inr (r, c') \<Rightarrow>
                     Inr (r, PhoneForward (forwardNumber pf) ((children pf)[?k := Some c']))))
       | Some c \<Rightarrow>
           (case addPhoneForward al c num1 num2 (i + 1) of
              Inl e \<Rightarrow> Inl e
            | Inr (r, c') \<Rightarrow>
                Inr (r, PhoneForward (forwardNumber pf) ((children pf)[?k := Some c']))))"
    using lt by (subst addPhoneForward.simps) simp
  show ?case
  proof (cases "children pf ! ?k")
    case None
    then have same: "PhoneForward (forwardNumber pf) ((children pf)[?k := None]) = pf"
      by (metis PhoneForward.collapse list_update_id)
    have old: "target_at pf (?c # q) = None" for q
      using None by (simp add: target_at_Cons)
    show ?thesis
    proof (cases "phfwdNew al")
      case n: None
      with step None same Suc.prems(3) have "\<not> r" "pf' = pf" by simp_all
      with None d Suc.prems(2) show ?thesis by simp
    next
      case (Some c0)
      then have c0: "c0 = PhoneForward None (replicate BASE None)"
        by (simp add: phfwdNew_def split: if_splits)
      from step None Some Suc.prems(3) obtain c' where
        rec: "addPhoneForward (tl al) c0 num1 num2 (Suc i) = Inr (r, c')"
        and pf': "pf' = PhoneForward (forwardNumber pf) ((children pf)[?k := Some c'])"
        by (auto split: sum.splits)
      have ih: "wf_pf c' \<and>
          (\<forall>q. list_all isSymbol q \<longrightarrow>
             target_at c' q = (if r \<and> q = drop (Suc i) num1 then Some num2 else target_at c0 q)) \<and>
          (\<not> r \<longrightarrow> node_at c' (drop (Suc i) num1) = None)"
        using Suc.hyps(1) [OF m le _ rec] wf_pf_fresh c0 by simp
      then have "\<forall>q. list_all isSymbol q \<longrightarrow>
          target_at c' q = (if r \<and> q = drop (Suc i) num1 then Some num2 else target_at pf (?c # q))"
        using old c0 target_at_fresh by simp
      with ih show ?thesis
        using graft_props [OF Suc.prems(2) c, of c' r "drop (Suc i) num1" num2] d pf' by simp
    qed
  next
    case (Some ch)
    have wfch: "wf_pf ch"
      using wf_pf_child [OF Suc.prems(2) Some charToInt_less] .
    have old: "target_at pf (?c # q) = target_at ch q" for q
      using Some by (simp add: target_at_Cons)
    from step Some Suc.prems(3) obtain c' where
      rec: "addPhoneForward al ch num1 num2 (Suc i) = Inr (r, c')"
      and pf': "pf' = PhoneForward (forwardNumber pf) ((children pf)[?k := Some c'])"
      by (auto split: sum.splits)
    have ih: "wf_pf c' \<and>
        (\<forall>q. list_all isSymbol q \<longrightarrow>
           target_at c' q = (if r \<and> q = drop (Suc i) num1 then Some num2 else target_at ch q)) \<and>
        (\<not> r \<longrightarrow> node_at c' (drop (Suc i) num1) = None)"
      using Suc.hyps(1) [OF m le wfch rec] .
    then show ?thesis
      using graft_props [OF Suc.prems(2) c, of c' r "drop (Suc i) num1" num2] d pf' old by simp
  qed
qed

lemma phfwdAdd_true:
  assumes wf: "wf_pf t" and add: "phfwdAdd al (Some t) num1 num2 = Inr (True, t')"
  shows "\<exists>p y pf'. num1 = Some p \<and> num2 = Some y \<and> isNumberOk (Some p) \<and>
           isNumberOk (Some y) \<and> p \<noteq> y \<and> t' = Some pf' \<and> wf_pf pf' \<and>
           (\<forall>q. list_all isSymbol q \<longrightarrow>
              target_at pf' q = (if q = p then Some y else target_at t q))"
proof -
  from add have ok: "isNumberOk num1" "isNumberOk num2" "num1 \<noteq> num2"
    by (auto simp: phfwdAdd_def split: if_splits)
  then obtain p y where py: "num1 = Some p" "num2 = Some y"
    by (cases num1; cases num2) auto
  from add ok py obtain pf' where
    a: "addPhoneForward al t p y 0 = Inr (True, pf')" and t': "t' = Some pf'"
    by (auto simp: phfwdAdd_def split: sum.splits if_splits)
  from ok py have p: "list_all isSymbol p" by (simp split: if_splits)
  from addPhoneForward_props [OF p _ _ wf a] ok py
  have "wf_pf pf' \<and> (\<forall>q. list_all isSymbol q \<longrightarrow>
      target_at pf' q = (if q = p then Some y else target_at t q))"
    by simp
  with ok py t' show ?thesis by blast
qed

lemma phfwdAdd_false:
  assumes wf: "wf_pf t" and add: "phfwdAdd al (Some t) num1 num2 = Inr (False, t')"
  shows "\<exists>pf'. t' = Some pf' \<and> wf_pf pf' \<and>
           (\<forall>q. list_all isSymbol q \<longrightarrow> target_at pf' q = target_at t q)"
proof (cases "\<not> isNumberOk num1 \<or> \<not> isNumberOk num2 \<or> num1 = num2")
  case True
  with add have "t' = Some t"
    by (auto simp: phfwdAdd_def)
  with wf show ?thesis by simp
next
  case False
  then obtain p y where py: "num1 = Some p" "num2 = Some y"
    by (cases num1; cases num2) auto
  from add False py obtain pf' where
    a: "addPhoneForward al t p y 0 = Inr (False, pf')"
    and t': "t' = phfwdRemove (Some pf') (Some p)"
    by (auto simp: phfwdAdd_def split: sum.splits if_splits)
  from False py have p: "list_all isSymbol p" "p \<noteq> []" and okp: "isNumberOk (Some p)"
    by (simp_all split: if_splits)
  from addPhoneForward_props [OF p(1) _ _ wf a] False py
  have props: "wf_pf pf'" "\<forall>q. list_all isSymbol q \<longrightarrow> target_at pf' q = target_at t q"
    "node_at pf' p = None"
    by simp_all
  have "prune pf' p = pf'"
    using p(2) props(3) by (rule prune_absent)
  with t' okp have "t' = Some pf'"
    by (simp only: phfwdRemove_prune)
  with props show ?thesis by blast
qed

lemma addPhoneForward_succeeds:
  "\<exists>pf'. addPhoneForward [] pf num1 num2 i = Inr (True, pf')"
proof (induction "length num1 - i" arbitrary: i pf)
  case 0
  then have "\<not> i < length num1" by simp
  then show ?case
    by (subst addPhoneForward.simps) simp
next
  case (Suc m)
  then have lt: "i < length num1" and m: "m = length num1 - Suc i" by simp_all
  show ?case
  proof (cases "children pf ! charToInt (num1 ! i)")
    case None
    from Suc.hyps(1) [OF m, of "PhoneForward None (replicate BASE None)"]
    obtain c' where "addPhoneForward [] (PhoneForward None (replicate BASE None)) num1 num2 (Suc i)
        = Inr (True, c')"
      by blast
    with lt None show ?thesis
      by (subst addPhoneForward.simps) (simp add: phfwdNew_def)
  next
    case (Some ch)
    from Suc.hyps(1) [OF m, of ch]
    obtain c' where "addPhoneForward [] ch num1 num2 (Suc i) = Inr (True, c')"
      by blast
    with lt Some show ?thesis
      by (subst addPhoneForward.simps) simp
  qed
qed

lemma phfwdAdd_succeeds:
  assumes "isNumberOk (Some p)" "isNumberOk (Some y)" "p \<noteq> y"
  shows "\<exists>t'. phfwdAdd [] (Some t) (Some p) (Some y) = Inr (True, Some t')"
proof -
  obtain pf' where "addPhoneForward [] t p y 0 = Inr (True, pf')"
    using addPhoneForward_succeeds by blast
  with assms show ?thesis
    by (simp add: phfwdAdd_def)
qed

lemma phfwdGet_deepest:
  assumes "isNumberOk (Some n)" "j \<le> length n" "target_at pf (take j n) = Some tg"
    and "\<forall>k. j < k \<and> k \<le> length n \<longrightarrow> target_at pf (take k n) = None"
  shows "phfwdGet (Some pf) (Some n) = Some \<lparr>numbers = [Some (tg @ drop j n)], size_pn = 1\<rparr>"
proof -
  have "walk pf n (None, 0) 0 = (Some tg, 0 + j)"
    using assms(2-4) by (rule walk_some)
  then have "phoneForwardGet pf n (None, 0) 0 = (Some tg, j)"
    using phoneForwardGet_walk [of 0 n pf "(None, 0)"] by simp
  with assms(1) show ?thesis
    by (auto simp: phfwdGet_def split: if_splits)
qed

text \<open>
  Claim C8.  Let a first \<open>phfwdAdd\<close> for prefix \<open>p\<close> have run on a well-formed trie.  A
  second one for the same prefix with a valid target \<open>y \<noteq> p\<close> is accepted, and
  whenever it is accepted \<open>p\<close> resolves to \<open>y\<close> alone, the rule of every other prefix is
  what it was before the second call, and the rules are those that adding \<open>p \<mapsto> y\<close>
  alone to the initial trie gives.
\<close>

theorem phfwdAdd_overwrite:
  assumes wf: "wf_pf t"
    and first: "phfwdAdd al1 (Some t) (Some p) x = Inr (r1, Some t1)"
  shows "(isNumberOk (Some p) \<and> isNumberOk (Some y) \<and> p \<noteq> y \<longrightarrow>
            (\<exists>t2. phfwdAdd [] (Some t1) (Some p) (Some y) = Inr (True, Some t2))) \<and>
         (\<forall>al2 t2. phfwdAdd al2 (Some t1) (Some p) (Some y) = Inr (True, Some t2) \<longrightarrow>
            phfwdGet (Some t2) (Some p) = Some \<lparr>numbers = [Some y], size_pn = 1\<rparr> \<and>
            target_at t2 p = Some y \<and>
            (\<forall>q. list_all isSymbol q \<and> q \<noteq> p \<longrightarrow> target_at t2 q = target_at t1 q) \<and>
            (\<forall>al3 t3. phfwdAdd al3 (Some t) (Some p) (Some y) = Inr (True, Some t3) \<longrightarrow>
               (\<forall>q. list_all isSymbol q \<longrightarrow> target_at t3 q = target_at t2 q)))"
proof (intro conjI allI impI)
  assume "isNumberOk (Some p) \<and> isNumberOk (Some y) \<and> p \<noteq> y"
  then show "\<exists>t2. phfwdAdd [] (Some t1) (Some p) (Some y) = Inr (True, Some t2)"
    using phfwdAdd_succeeds by blast
next
  have t1: "wf_pf t1 \<and> (\<forall>q. list_all isSymbol q \<and> q \<noteq> p \<longrightarrow> target_at t1 q = target_at t q)"
  proof (cases r1)
    case True
    with phfwdAdd_true [OF wf, of al1 "Some p" x "Some t1"] first show ?thesis by auto
  next
    case False
    with phfwdAdd_false [OF wf, of al1 "Some p" x "Some t1"] first show ?thesis by auto
  qed
  fix al2 t2
  assume second: "phfwdAdd al2 (Some t1) (Some p) (Some y) = Inr (True, Some t2)"
  from phfwdAdd_true [OF _ second] t1
  have p: "isNumberOk (Some p)"
    and t2: "\<forall>q. list_all isSymbol q \<longrightarrow> target_at t2 q = (if q = p then Some y else target_at t1 q)"
    by auto
  from p have sym: "list_all isSymbol p" by (simp split: if_splits)
  from t2 sym show tp: "target_at t2 p = Some y" by simp
  from t2 show "target_at t2 q = target_at t1 q" if "list_all isSymbol q \<and> q \<noteq> p" for q
    using that by simp
  have "phfwdGet (Some t2) (Some p) = Some \<lparr>numbers = [Some (y @ drop (length p) p)], size_pn = 1\<rparr>"
    using p by (rule phfwdGet_deepest) (simp_all add: tp)
  then show "phfwdGet (Some t2) (Some p) = Some \<lparr>numbers = [Some y], size_pn = 1\<rparr>"
    by simp
  fix al3 t3 q
  assume third: "phfwdAdd al3 (Some t) (Some p) (Some y) = Inr (True, Some t3)"
    and q: "list_all isSymbol q"
  from phfwdAdd_true [OF wf third]
  have "target_at t3 q = (if q = p then Some y else target_at t q)"
    using q by auto
  with t2 t1 q show "target_at t3 q = target_at t2 q" by simp
qed

lemma phfwdNew_empty: "phfwdNew [] = Some empty_trie"
  by (simp add: phfwdNew_def empty_trie_def)

lemma wf_pf_empty_trie: "wf_pf empty_trie"
  by (simp add: empty_trie_def wf_pf_fresh)

theorem phfwdAdd_overwrite_witness:
  "wf_pf empty_trie \<and>
   phfwdAdd [] (Some empty_trie) (Some ''13'') (Some ''7'')
     = Inr (True, Some (inner None 1 (inner None 3 (leaf ''7'')))) \<and>
   phfwdAdd [] (Some (inner None 1 (inner None 3 (leaf ''7'')))) (Some ''13'') (Some ''5'')
     = Inr (True, Some trie_13_5) \<and>
   phfwdGet (Some trie_13_5) (Some ''13'') = Some \<lparr>numbers = [Some ''5''], size_pn = 1\<rparr> \<and>
   target_at trie_13_5 ''13'' = Some ''5''"
proof -
  have first: "phfwdAdd [] (Some empty_trie) (Some ''13'') (Some ''7'')
      = Inr (True, Some (inner None 1 (inner None 3 (leaf ''7''))))"
    by (simp add: phfwdAdd_def empty_trie_def inner_def leaf_def replicate_BASE isSymbol_def
        addPhoneForward.simps phfwdNew_def)
  have second: "phfwdAdd [] (Some (inner None 1 (inner None 3 (leaf ''7'')))) (Some ''13'') (Some ''5'')
      = Inr (True, Some trie_13_5)"
    by (simp add: phfwdAdd_def trie_13_5_def inner_def leaf_def replicate_BASE isSymbol_def
        addPhoneForward.simps phfwdNew_def)
  from phfwdAdd_overwrite [OF wf_pf_empty_trie first, of "''5''"] second
  have "phfwdGet (Some trie_13_5) (Some ''13'') = Some \<lparr>numbers = [Some ''5''], size_pn = 1\<rparr> \<and>
      target_at trie_13_5 ''13'' = Some ''5''"
    by blast
  with first second wf_pf_empty_trie show ?thesis by simp
qed

lemma walk_cong:
  assumes eq: "\<forall>k\<le>length cs. target_at a (take k cs) = target_at b (take k cs)"
  shows "walk a cs pnj i = walk b cs pnj i"
proof (cases "\<forall>k\<le>length cs. target_at a (take k cs) = None")
  case True
  with eq have "\<forall>k\<le>length cs. target_at b (take k cs) = None" by simp
  with True show ?thesis by (simp add: walk_none)
next
  case False
  let ?P = "\<lambda>k. k \<le> length cs \<and> target_at a (take k cs) \<noteq> None"
  from False have ex: "\<exists>k. ?P k" by blast
  define j where "j = (GREATEST k. ?P k)"
  have Pj: "?P j"
    unfolding j_def by (rule GreatestI_ex_nat [OF ex, of "length cs"]) simp
  have max: "k \<le> j" if "?P k" for k
    unfolding j_def by (rule Greatest_le_nat [of ?P, OF that, of "length cs"]) simp
  from Pj obtain tg where tg: "target_at a (take j cs) = Some tg" by blast
  have later: "\<forall>k. j < k \<and> k \<le> length cs \<longrightarrow> target_at a (take k cs) = None"
    using max by (meson not_le)
  have "walk a cs pnj i = (Some tg, i + j)"
    using Pj tg later by (intro walk_some) simp_all
  moreover have "walk b cs pnj i = (Some tg, i + j)"
    using Pj tg later eq by (intro walk_some) simp_all
  ultimately show ?thesis by simp
qed

lemma phfwdGet_cong:
  assumes "\<forall>q. list_all isSymbol q \<longrightarrow> target_at a q = target_at b q"
  shows "phfwdGet (Some a) num = phfwdGet (Some b) num"
proof (cases "isNumberOk num")
  case False
  then show ?thesis by (simp add: phfwdGet_def)
next
  case True
  then obtain n where n: "num = Some n" "list_all isSymbol n"
    by (cases num) auto
  have "list_all isSymbol (take k n)" for k
    using n(2) by (auto simp: list_all_iff dest: in_set_takeD)
  with assms have "walk a n (None, 0) 0 = walk b n (None, 0) 0"
    by (intro walk_cong) simp
  then have "phoneForwardGet a n (None, 0) 0 = phoneForwardGet b n (None, 0) 0"
    by (simp add: phoneForwardGet_walk)
  with n show ?thesis by (simp add: phfwdGet_def)
qed

lemma phfwdAdd_false_get:
  assumes "wf_pf t" "phfwdAdd al (Some t) num1 num2 = Inr (False, t')"
  shows "phfwdGet t' num = phfwdGet (Some t) num"
  using phfwdAdd_false [OF assms] phfwdGet_cong by blast

text \<open>
  Claim C6.  A \<open>phfwdAdd\<close> that returns false leaves every rule and every result of
  \<open>phfwdGet\<close> as before (\<open>phfwdAdd_false\<close>, \<open>phfwdAdd_false_get\<close>), but not the trie
  itself: when the allocation of the second node of the path fails, the call
  \<open>phfwdRemove(pf, num1)\<close> meant to roll back finds no node at \<open>num1\<close> and removes
  nothing, so the node created for the first symbol stays in the trie.
\<close>

theorem phfwdAdd_failure_keeps_nodes:
  "phfwdAdd [True, False] (Some empty_trie) (Some ''12'') (Some ''3'')
     = Inr (False, Some (inner None 1 empty_trie)) \<and>
   inner None 1 empty_trie \<noteq> empty_trie \<and>
   node_at (inner None 1 empty_trie) ''1'' = Some empty_trie \<and>
   node_at empty_trie ''1'' = None"
  by (simp add: phfwdAdd_def empty_trie_def inner_def replicate_BASE isSymbol_def
      addPhoneForward.simps phfwdNew_def phfwdRemove_def phoneForwardRemove.simps)

theorem phfwdAdd_failure_keeps_nodes_witness:
  "isNumberOk (Some ''12'') \<and> isNumberOk (Some ''3'') \<and> ''12'' \<noteq> ''3'' \<and>
   malloc_ok [True, False] \<and> \<not> malloc_ok (tl [True, False]) \<and>
   (\<exists>t'. phfwdAdd [True, False] (Some empty_trie) (Some ''12'') (Some ''3'')
            = Inr (False, Some t') \<and> t' \<noteq> empty_trie)"
proof -
  have "isNumberOk (Some ''12'')" "isNumberOk (Some ''3'')"
    by (simp_all add: isSymbol_def)
  with phfwdAdd_failure_keeps_nodes show ?thesis by simp
qed

section \<open>The traversal of reverse lookup\<close>

lemma length_setChar: "index \<le> length buf \<Longrightarrow> Suc index \<le> length (setChar buf index c)"
  by (simp add: setChar_def)

lemma take_setChar:
  "index \<le> length buf \<Longrightarrow> take (Suc index) (setChar buf index c) = take index buf @ [c]"
  by (auto simp: setChar_def take_Suc_conv_app_nth)

declare reverse.simps(2) [simp del] collect.simps(2) [simp del]

lemma fold_reverse_children:
  assumes ih: "\<And>x buf out. x \<in> set xs \<Longrightarrow> index \<le> length buf \<Longrightarrow>
      \<exists>buf'. reverse (snd x) num (Suc index) (setChar buf index (intToChar (fst x)), out)
               = (buf', out @ collect (snd x) num (take index buf @ [intToChar (fst x)])) \<and>
             Suc index \<le> length buf' \<and>
             take (Suc index) buf' = take index buf @ [intToChar (fst x)]"
  shows "index \<le> length buf \<Longrightarrow>
     \<exists>buf'. fold (\<lambda>ich st'. reverse (snd ich) num (index + 1)
                    (setChar (fst st') index (intToChar (fst ich)), snd st')) xs (buf, out)
              = (buf', out @ concat (map (\<lambda>ich. collect (snd ich) num
                                         (take index buf @ [intToChar (fst ich)])) xs)) \<and>
            index \<le> length buf' \<and> take index buf' = take index buf"
  using ih
proof (induction xs arbitrary: buf out)
  case Nil
  then show ?case by simp
next
  case (Cons x xs)
  let ?p = "take index buf @ [intToChar (fst x)]"
  from Cons.prems(2) [of x buf out] Cons.prems(1) obtain buf1 where
    r: "reverse (snd x) num (Suc index) (setChar buf index (intToChar (fst x)), out)
          = (buf1, out @ collect (snd x) num ?p)"
    and l1: "Suc index \<le> length buf1" and t1: "take (Suc index) buf1 = ?p"
    by auto
  from l1 have l1': "index \<le> length buf1" by simp
  have t1': "take index buf1 = take index buf"
  proof -
    have "take index buf1 = take index (take (Suc index) buf1)" by simp
    also have "\<dots> = take index buf"
      using t1 Cons.prems(1) by simp
    finally show ?thesis .
  qed
  from Cons.IH [OF l1', of "out @ collect (snd x) num ?p"] Cons.prems(2)
  obtain buf' where
    f: "fold (\<lambda>ich st'. reverse (snd ich) num (index + 1)
                (setChar (fst st') index (intToChar (fst ich)), snd st')) xs
          (buf1, out @ collect (snd x) num ?p)
        = (buf', (out @ collect (snd x) num ?p)
                 @ concat (map (\<lambda>ich. collect (snd ich) num
                                  (take index buf1 @ [intToChar (fst ich)])) xs))"
    and l': "index \<le> length buf'" and t': "take index buf' = take index buf1"
    by auto
  show ?case
    using r f l' t' t1' by simp
qed

lemma reverse_collect:
  "index \<le> length (fst st) \<Longrightarrow>
   \<exists>buf'. reverse pf num index st = (buf', snd st @ collect pf num (take index (fst st))) \<and>
          index \<le> length buf' \<and> take index buf' = take index (fst st)"
proof (induction pf num index st rule: reverse.induct)
  case (1 reverseNum index st)
  then show ?case by (cases st) simp
next
  case (2 pf reverseNum index st)
  obtain buf out where st: "st = (buf, out)" by (cases st)
  let ?own = "if forwardNumber pf \<noteq> None \<and> isPrefixOf (the (forwardNumber pf)) reverseNum
      then [take index buf @ drop (length (the (forwardNumber pf))) reverseNum] else []"
  have ih: "\<exists>buf'. reverse (snd x) reverseNum (Suc index) (setChar b index (intToChar (fst x)), out')
               = (buf', out' @ collect (snd x) reverseNum (take index b @ [intToChar (fst x)])) \<and>
             Suc index \<le> length buf' \<and>
             take (Suc index) buf' = take index b @ [intToChar (fst x)]"
    if "x \<in> set (zip [0..<BASE] (children pf))" "index \<le> length b" for x b out'
    using "2.IH" [OF that(1), of "(b, out')"] that(2)
    by (simp add: length_setChar take_setChar)
  let ?F = "\<lambda>ich st'. reverse (snd ich) reverseNum (index + 1)
                    (setChar (fst st') index (intToChar (fst ich)), snd st')"
  let ?zs = "zip [0..<BASE] (children pf)"
  let ?sub = "concat (map (\<lambda>ich. collect (snd ich) reverseNum
                                 (take index buf @ [intToChar (fst ich)])) ?zs)"
  from fold_reverse_children [of ?zs index reverseNum buf "out @ ?own", OF ih] "2.prems" st
  obtain buf' where f: "fold ?F ?zs (buf, out @ ?own) = (buf', (out @ ?own) @ ?sub)"
    and l: "index \<le> length buf'" and t: "take index buf' = take index buf"
    by auto
  have init: "(if forwardNumber pf \<noteq> None \<and> isPrefixOf (the (forwardNumber pf)) reverseNum
        then (fst st, snd st @ [take index (fst st)
                                 @ drop (length (the (forwardNumber pf))) reverseNum])
        else st) = (buf, out @ ?own)"
    using st by simp
  have r: "reverse (Some pf) reverseNum index st = fold ?F ?zs (buf, out @ ?own)"
    by (simp only: reverse.simps(2) init)
  have c: "collect (Some pf) reverseNum (take index buf) = ?own @ ?sub"
    by (simp only: collect.simps(2))
  have "reverse (Some pf) reverseNum index st
      = (buf', snd st @ collect (Some pf) reverseNum (take index (fst st)))"
    unfolding r f using c st by simp
  with l t st show ?case by simp
qed

lemma isPrefixOf_iff: "isPrefixOf p n \<longleftrightarrow> prefix p n"
proof
  assume "isPrefixOf p n"
  then have le: "length p \<le> length n" and eq: "\<forall>i<length p. p ! i = n ! i"
    by (auto simp: isPrefixOf_def list_all_iff split: if_splits)
  then have "p = take (length p) n"
    by (intro nth_equalityI) simp_all
  then show "prefix p n"
    by (metis take_is_prefix)
next
  assume "prefix p n"
  then obtain zs where "n = p @ zs" by (auto simp: prefix_def)
  then show "isPrefixOf p n"
    by (simp add: isPrefixOf_def list_all_iff nth_append)
qed

lemma isSymbol_intToChar: "isSymbol (intToChar i)"
  by (simp add: isSymbol_def intToChar_def isdigit_def)

lemma isdigit_char_of:
  "i \<le> 9 \<Longrightarrow> isdigit (char_of (48 + i)) \<and> (of_char (char_of (48 + i)) :: nat) = 48 + i"
  by (simp add: isdigit_def)

lemma charToInt_intToChar: "i < BASE \<Longrightarrow> charToInt (intToChar i) = i"
proof (cases "i \<le> 9")
  case True
  with isdigit_char_of [OF True] show ?thesis
    by (simp add: charToInt_def intToChar_def)
next
  case False
  moreover assume "i < BASE"
  ultimately have "i = 10 \<or> i = 11" by (auto simp: BASE_def)
  then show ?thesis
    by (auto simp: intToChar_def)
qed

lemma intToChar_charToInt: "isSymbol c \<Longrightarrow> intToChar (charToInt c) = c"
  by (auto simp: charToInt_def intToChar_def isdigit_def isSymbol_def)

lemma set_zip_children:
  "length chs = BASE \<Longrightarrow> set (zip [0..<BASE] chs) = {(i, chs ! i) | i. i < BASE}"
proof (intro set_eqI iffI)
  fix x
  assume "length chs = BASE" "x \<in> set (zip [0..<BASE] chs)"
  then show "x \<in> {(i, chs ! i) | i. i < BASE}"
    by (auto simp: set_zip)
next
  fix x
  assume l: "length chs = BASE" and "x \<in> {(i, chs ! i) | i. i < BASE}"
  then obtain i where "i < BASE" "x = (i, chs ! i)" by blast
  with l have "x = ([0..<BASE] ! i, chs ! i) \<and> i < min (length [0..<BASE]) (length chs)"
    by simp
  then show "x \<in> set (zip [0..<BASE] chs)"
    unfolding set_zip by blast
qed

lemma set_collect_Some:
  "set (collect (Some pf) num path) =
     (if forwardNumber pf \<noteq> None \<and> prefix (the (forwardNumber pf)) num
      then {path @ drop (length (the (forwardNumber pf))) num} else {}) \<union>
     (\<Union>x\<in>set (zip [0..<BASE] (children pf)).
        set (collect (snd x) num (path @ [intToChar (fst x)])))"
  by (simp add: collect.simps(2) isPrefixOf_iff)

lemma set_collect:
  "wf_pf pf \<Longrightarrow>
   set (collect (Some pf) num path) =
     {path @ P @ drop (length tg) num | P tg.
        list_all isSymbol P \<and> target_at pf P = Some tg \<and> prefix tg num}"
proof (induction "Some pf" num path arbitrary: pf rule: collect.induct)
  case (2 pf num path)
  let ?S = "\<lambda>t pa. {pa @ P @ drop (length tg) num | P tg.
        list_all isSymbol P \<and> target_at t P = Some tg \<and> prefix tg num}"
  have len: "length (children pf) = BASE"
    using "2.prems" by (rule wf_pf_length)
  have sub: "set (collect (Some ch) num (path @ [intToChar i])) = ?S ch (path @ [intToChar i])"
    if "i < BASE" "children pf ! i = Some ch" for i ch
  proof -
    have "(i, children pf ! i) \<in> set (zip [0..<BASE] (children pf))"
      using that(1) len by (auto simp: set_zip_children)
    moreover have "wf_pf ch"
      using "2.prems" that(2,1) by (rule wf_pf_child)
    ultimately show ?thesis
      using "2.hyps" [of "(i, children pf ! i)" ch] that(2) by simp
  qed
  show ?case
  proof (intro set_eqI iffI)
    fix y
    assume "y \<in> set (collect (Some pf) num path)"
    then consider
      (own) tg where "forwardNumber pf = Some tg" "prefix tg num" "y = path @ drop (length tg) num"
      | (child) i where "i < BASE" "y \<in> set (collect (children pf ! i) num (path @ [intToChar i]))"
      using len by (auto simp: set_collect_Some set_zip_children split: if_splits)
    then show "y \<in> ?S pf path"
    proof cases
      case own
      then have "list_all isSymbol [] \<and> target_at pf [] = Some tg \<and> prefix tg num \<and>
          y = path @ [] @ drop (length tg) num"
        by simp
      then show ?thesis by blast
    next
      case child
      then obtain ch where ch: "children pf ! i = Some ch"
        by (cases "children pf ! i") auto
      with child sub [OF child(1) ch] obtain P tg where
        P: "list_all isSymbol P" "target_at ch P = Some tg" "prefix tg num"
          "y = (path @ [intToChar i]) @ P @ drop (length tg) num"
        by auto
      have "list_all isSymbol (intToChar i # P)"
        using P(1) by (simp add: isSymbol_intToChar)
      moreover have "target_at pf (intToChar i # P) = Some tg"
        using P(2) ch child(1) by (simp add: target_at_Cons charToInt_intToChar)
      moreover have "y = path @ (intToChar i # P) @ drop (length tg) num"
        using P(4) by simp
      ultimately show ?thesis using P(3) by blast
    qed
  next
    fix y
    assume "y \<in> ?S pf path"
    then obtain P tg where P: "list_all isSymbol P" "target_at pf P = Some tg" "prefix tg num"
      "y = path @ P @ drop (length tg) num"
      by blast
    show "y \<in> set (collect (Some pf) num path)"
    proof (cases P)
      case Nil
      with P show ?thesis by (simp add: set_collect_Some)
    next
      case (Cons d P')
      let ?i = "charToInt d"
      from Cons P(1) have d: "isSymbol d" and P': "list_all isSymbol P'" by simp_all
      from Cons P(2) obtain ch where ch: "children pf ! ?i = Some ch"
        and t: "target_at ch P' = Some tg"
        by (auto simp: target_at_Cons split: option.splits)
      have "y = (path @ [intToChar ?i]) @ P' @ drop (length tg) num"
        using P(4) Cons d by (simp add: intToChar_charToInt)
      with P' t P(3) have "y \<in> ?S ch (path @ [intToChar ?i])" by blast
      then have "y \<in> set (collect (children pf ! ?i) num (path @ [intToChar ?i]))"
        using sub [OF charToInt_less ch] ch by simp
      moreover have "(?i, children pf ! ?i) \<in> set (zip [0..<BASE] (children pf))"
        using len charToInt_less [of d] by (auto simp: set_zip_children)
      ultimately show ?thesis
        unfolding set_collect_Some by force
    qed
  qed
qed

section \<open>Sorting and removing duplicates\<close>

lemma comparator_loop_spec:
  "i \<le> length a \<Longrightarrow> i \<le> length b \<Longrightarrow>
   comparator_loop a b i =
     (if code_less (drop i a) (drop i b) then - 1
      else if code_less (drop i b) (drop i a) then 1 else 0)"
proof (induction "min (length a) (length b) - i" arbitrary: i)
  case 0
  then have n: "\<not> i < min (length a) (length b)" by linarith
  with "0.prems" consider "i = length a" "length a < length b"
    | "i = length a" "length a = length b" | "i = length b" "length b < length a"
    by atomize_elim linarith
  then show ?case
  proof cases
    case 1
    then obtain y ys where "drop i b = y # ys"
      by (metis Cons_nth_drop_Suc)
    with 1 n show ?thesis
      by (subst comparator_loop.simps) simp
  next
    case 2
    with n show ?thesis
      by (subst comparator_loop.simps) simp
  next
    case 3
    then obtain x xs where "drop i a = x # xs"
      by (metis Cons_nth_drop_Suc)
    with 3 n show ?thesis
      by (subst comparator_loop.simps) simp
  qed
next
  case (Suc m)
  then have lt: "i < min (length a) (length b)" by linarith
  then have da: "drop i a = a ! i # drop (Suc i) a" and db: "drop i b = b ! i # drop (Suc i) b"
    by (simp_all add: Cons_nth_drop_Suc)
  have "comparator_loop a b (Suc i) =
     (if code_less (drop (Suc i) a) (drop (Suc i) b) then - 1
      else if code_less (drop (Suc i) b) (drop (Suc i) a) then 1 else 0)"
    using Suc.hyps(2) lt by (intro Suc.hyps(1)) simp_all
  with lt da db show ?case
    by (subst comparator_loop.simps) auto
qed

lemma code_less_iff: "code_less a b \<longleftrightarrow> map charToInt a < map charToInt b"
  by (induction a b rule: code_less.induct) simp_all

lemma comparator_spec:
  "comparator a b = (if code_less a b then - 1 else if code_less b a then 1 else 0)"
  using comparator_loop_spec [of 0 a b] by (simp add: comparator_def)

lemma comparator_le: "comparator a b \<le> 0 \<longleftrightarrow> map charToInt a \<le> map charToInt b"
  by (auto simp: comparator_spec code_less_iff)

lemma qsort_insert_comparator:
  "qsort_insert comparator x ys = insort_key (map charToInt) x ys"
  by (induction ys) (simp_all add: comparator_le)

lemma qsort_comparator: "qsort comparator xs = sort_key (map charToInt) xs"
proof -
  have "qsort_insert comparator = insort_key (map charToInt)"
    by (intro ext) (rule qsort_insert_comparator)
  then show ?thesis
    by (simp add: qsort_def sort_key_def)
qed

lemma dedup_loop_remdups_adj:
  "i < length pn \<Longrightarrow>
   dedup_loop pn i out @ [pn ! (length pn - 1)] = out @ remdups_adj (drop i pn)"
proof (induction "length pn - 1 - i" arbitrary: i out)
  case 0
  then have i: "i = length pn - 1" by simp
  from "0.prems" have "drop i pn = pn ! i # drop (Suc i) pn"
    by (simp add: Cons_nth_drop_Suc)
  moreover from 0 have "drop (Suc i) pn = []" by simp
  ultimately have "drop i pn = [pn ! (length pn - 1)]"
    using i by simp
  with i show ?case
    by (subst dedup_loop.simps) simp
next
  case (Suc m)
  then have lt: "i < length pn - 1" by simp
  then have lt': "Suc i < length pn" by simp
  have d: "drop i pn = pn ! i # pn ! Suc i # drop (Suc (Suc i)) pn"
    using lt' by (metis Cons_nth_drop_Suc Suc_lessD)
  have d': "drop (Suc i) pn = pn ! Suc i # drop (Suc (Suc i)) pn"
    using lt' by (metis Cons_nth_drop_Suc)
  let ?out = "if pn ! i \<noteq> pn ! (i + 1) then out @ [pn ! i] else out"
  have "dedup_loop pn (Suc i) ?out @ [pn ! (length pn - 1)] = ?out @ remdups_adj (drop (Suc i) pn)"
    using Suc.hyps(2) lt' by (intro Suc.hyps(1)) simp_all
  moreover have "dedup_loop pn i out = dedup_loop pn (Suc i) ?out"
    using lt by (subst dedup_loop.simps) simp
  ultimately show ?case
    using d d' by simp
qed

lemma strict_after_remdups_adj:
  "sorted_wrt (\<lambda>a b. key a \<le> key b) zs \<Longrightarrow> inj_on key (set zs) \<Longrightarrow>
   sorted_wrt (\<lambda>a b. (key a :: 'k :: linorder) < key b) (remdups_adj zs)"
proof (induction zs rule: remdups_adj.induct)
  case 1
  then show ?case by simp
next
  case (2 x)
  then show ?case by simp
next
  case (3 x y r)
  show ?case
  proof (cases "x = y")
    case True
    with 3 show ?thesis by simp
  next
    case False
    have "key x < key z" if z: "z \<in> set (y # r)" for z
    proof -
      from "3.prems"(1) z have le: "key x \<le> key z" by auto
      have "key x \<noteq> key z"
      proof
        assume e: "key x = key z"
        with "3.prems"(2) z have xz: "x = z" by (auto dest: inj_onD)
        with False z have "z \<in> set r" by auto
        with "3.prems"(1) have "key y \<le> key z" by auto
        moreover from "3.prems"(1) have "key x \<le> key y" by simp
        ultimately have "key x = key y" using e by simp
        with "3.prems"(2) have "x = y" by (auto dest: inj_onD)
        with False show False by simp
      qed
      with le show ?thesis by simp
    qed
    moreover have "sorted_wrt (\<lambda>a b. key a < key b) (remdups_adj (y # r))"
      using 3 False by simp
    ultimately show ?thesis
      using False by simp
  qed
qed

lemma codes_inj:
  "list_all isSymbol a \<Longrightarrow> list_all isSymbol b \<Longrightarrow> map charToInt a = map charToInt b \<Longrightarrow> a = b"
proof (induction a arbitrary: b)
  case Nil
  then show ?case by simp
next
  case (Cons x a)
  then obtain y b' where b: "b = y # b'" by (cases b) auto
  with Cons.prems have "x = y" and "map charToInt a = map charToInt b'"
    and "list_all isSymbol a" "list_all isSymbol b'"
    using charToInt_inj [of x y] by simp_all
  with Cons.IH [of b'] b show ?case by simp
qed

lemma sorted_wrt_irrefl_distinct:
  "sorted_wrt R xs \<Longrightarrow> (\<And>x. \<not> R x x) \<Longrightarrow> distinct xs"
  by (induction xs) auto

section \<open>The result of reverse lookup\<close>

lemma collect_symbols:
  "list_all isSymbol path \<Longrightarrow> list_all isSymbol num \<Longrightarrow> y \<in> set (collect pf num path)
     \<Longrightarrow> list_all isSymbol y"
proof (induction pf num path rule: collect.induct)
  case (1 num path)
  then show ?case by simp
next
  case (2 pf num path)
  from "2.prems"(3) consider
    (own) "y = path @ drop (length (the (forwardNumber pf))) num"
    | (child) x where "x \<in> set (zip [0..<BASE] (children pf))"
        "y \<in> set (collect (snd x) num (path @ [intToChar (fst x)]))"
    by (auto simp: set_collect_Some split: if_splits)
  then show ?case
  proof cases
    case own
    with "2.prems" show ?thesis
      by (auto simp: list_all_iff dest: in_set_dropD)
  next
    case child
    with "2.IH" [OF child(1) _ "2.prems"(2) child(2)] "2.prems"(1) show ?thesis
      by (simp add: isSymbol_intToChar)
  qed
qed

lemma collect_prefix: "y \<in> set (collect pf num path) \<Longrightarrow> prefix path y"
proof (induction pf num path rule: collect.induct)
  case (1 num path)
  then show ?case by simp
next
  case (2 pf num path)
  from "2.prems" consider
    (own) "y = path @ drop (length (the (forwardNumber pf))) num"
    | (child) x where "x \<in> set (zip [0..<BASE] (children pf))"
        "y \<in> set (collect (snd x) num (path @ [intToChar (fst x)]))"
    by (auto simp: set_collect_Some split: if_splits)
  then show ?case
  proof cases
    case own
    then show ?thesis by simp
  next
    case child
    from "2.IH" [OF child] show ?thesis
      by (rule append_prefixD)
  qed
qed

lemma collect_root_nonempty:
  assumes "forwardNumber pf = None" "y \<in> set (collect (Some pf) num [])"
  shows "y \<noteq> []"
proof -
  from assms obtain x where "y \<in> set (collect (snd x) num ([] @ [intToChar (fst x)]))"
    by (auto simp: set_collect_Some)
  then have "prefix [intToChar (fst x)] y"
    using collect_prefix by fastforce
  then show ?thesis by auto
qed

lemma phfwdReverse_candidates:
  assumes "isNumberOk (Some n)"
  shows "phfwdReverse (Some pf) (Some n) =
     Some \<lparr>numbers = map Some (candidates pf n), size_pn = length (candidates pf n)\<rparr>"
proof -
  from reverse_collect [of 0 "([], [])" "Some pf" n]
  have found: "snd (reverse (Some pf) n 0 ([], [])) = collect (Some pf) n []"
    by auto
  let ?pn = "qsort comparator (collect (Some pf) n [] @ [n])"
  have "0 < length ?pn"
    by (simp add: qsort_comparator)
  then have "dedup_loop ?pn 0 [] @ [?pn ! (length ?pn - 1)] = [] @ remdups_adj (drop 0 ?pn)"
    by (rule dedup_loop_remdups_adj)
  then have eq: "dedup_loop ?pn 0 [] @ [?pn ! (length ?pn - 1)] = candidates pf n"
    by (simp add: candidates_def qsort_comparator)
  have "phfwdReverse (Some pf) (Some n) =
      Some \<lparr>numbers = map Some (dedup_loop ?pn 0 [] @ [?pn ! (length ?pn - 1)]),
            size_pn = length (dedup_loop ?pn 0 [] @ [?pn ! (length ?pn - 1)])\<rparr>"
    using assms found by (simp add: phfwdReverse_def Let_def)
  then show ?thesis
    by (simp only: eq)
qed

lemma set_candidates: "set (candidates pf n) = set (collect (Some pf) n []) \<union> {n}"
  by (simp add: candidates_def)

lemma candidates_nonempty: "candidates pf n \<noteq> []"
proof -
  have "length (sort_key (map charToInt) (collect (Some pf) n [] @ [n])) \<noteq> 0"
    by simp
  then show ?thesis
    unfolding candidates_def by (metis remdups_adj_Nil_iff list.size(3))
qed

lemma candidates_symbols:
  "list_all isSymbol n \<Longrightarrow> y \<in> set (candidates pf n) \<Longrightarrow> list_all isSymbol y"
  using collect_symbols [of "[]" n y "Some pf"] by (auto simp: set_candidates)

lemma candidates_strict: 
  assumes "list_all isSymbol n"
  shows "sorted_wrt code_less (candidates pf n)"
proof -
  let ?key = "map charToInt"
  let ?zs = "sort_key ?key (collect (Some pf) n [] @ [n])"
  have "sorted (map ?key ?zs)" by (rule sorted_sort_key)
  then have s: "sorted_wrt (\<lambda>a b. ?key a \<le> ?key b) ?zs"
    by (simp add: sorted_map)
  have "list_all isSymbol y" if "y \<in> set ?zs" for y
    using that assms collect_symbols [of "[]" n y "Some pf"] by auto
  then have "inj_on ?key (set ?zs)"
    by (intro inj_onI codes_inj) 
  with s have "sorted_wrt (\<lambda>a b. ?key a < ?key b) (remdups_adj ?zs)"
    by (rule strict_after_remdups_adj)
  moreover have "code_less = (\<lambda>a b. ?key a < ?key b)"
    by (intro ext) (rule code_less_iff)
  ultimately show ?thesis
    by (simp add: candidates_def)
qed

lemma code_less_irrefl: "\<not> code_less x x"
  by (simp add: code_less_iff)

lemma wf_pf_node_at: "wf_pf pf \<Longrightarrow> node_at pf P = Some nd \<Longrightarrow> wf_pf nd"
proof (induction P arbitrary: pf)
  case Nil
  then show ?case by simp
next
  case (Cons c P)
  then obtain ch where ch: "children pf ! charToInt c = Some ch" and n: "node_at ch P = Some nd"
    by (auto split: option.splits)
  from Cons.prems(1) ch charToInt_less have "wf_pf ch" by (rule wf_pf_child)
  then show ?case using n by (rule Cons.IH)
qed

lemma wf_pf_target: "wf_pf pf \<Longrightarrow> target_at pf P = Some tg \<Longrightarrow> isNumberOk (Some tg)"
proof -
  assume wf: "wf_pf pf" and t: "target_at pf P = Some tg"
  then obtain nd where nd: "node_at pf P = Some nd" "forwardNumber nd = Some tg"
    by (auto simp: target_at_def split: option.splits)
  with wf have "wf_pf nd" using wf_pf_node_at by blast
  with nd(2) show ?thesis by (cases nd) (simp add: wf_pf.simps)
qed

text \<open>
  Claim C3.  On a well-formed trie and a valid number \<open>n\<close>, the strings returned by
  \<open>phfwdReverse\<close> are exactly: for every node, reached from the root by the symbol string
  \<open>P\<close>, whose target \<open>tg\<close> is a non-empty prefix of \<open>n\<close>, the string \<open>P\<close> followed by
  \<open>n\<close> without its first \<open>length tg\<close> symbols; and \<open>n\<close> itself.
\<close>

theorem phfwdReverse_set:
  assumes "wf_pf pf" "isNumberOk (Some n)"
  shows "\<exists>ys. phfwdReverse (Some pf) (Some n)
                 = Some \<lparr>numbers = map Some ys, size_pn = length ys\<rparr> \<and>
              set ys = {P @ drop (length tg) n | P tg.
                          list_all isSymbol P \<and> target_at pf P = Some tg \<and>
                          tg \<noteq> [] \<and> prefix tg n} \<union> {n}"
proof -
  have "{[] @ P @ drop (length tg) n | P tg.
          list_all isSymbol P \<and> target_at pf P = Some tg \<and> prefix tg n}
      = {P @ drop (length tg) n | P tg.
          list_all isSymbol P \<and> target_at pf P = Some tg \<and> tg \<noteq> [] \<and> prefix tg n}"
    using wf_pf_target [OF assms(1)] by fastforce
  then have "set (candidates pf n) = {P @ drop (length tg) n | P tg.
        list_all isSymbol P \<and> target_at pf P = Some tg \<and> tg \<noteq> [] \<and> prefix tg n} \<union> {n}"
    using set_collect [OF assms(1), of n "[]"] by (simp only: set_candidates)
  with phfwdReverse_candidates [OF assms(2)] show ?thesis by blast
qed

text \<open>
  Claim C4.  On a valid number the list returned by \<open>phfwdReverse\<close> is non-decreasing in
  the order that compares symbol codes position by position and puts a proper prefix
  first; no two neighbours are equal, and no string occurs twice: the list is strictly
  increasing.
\<close>

theorem phfwdReverse_sorted:
  assumes "isNumberOk (Some n)"
  shows "\<exists>ys. phfwdReverse (Some pf) (Some n)
                 = Some \<lparr>numbers = map Some ys, size_pn = length ys\<rparr> \<and>
              sorted_wrt (\<lambda>a b. code_less a b \<or> a = b) ys \<and>
              (\<forall>i. Suc i < length ys \<longrightarrow> ys ! i \<noteq> ys ! Suc i) \<and>
              distinct ys \<and> sorted_wrt code_less ys"
proof -
  from assms have n: "list_all isSymbol n" by simp
  have s: "sorted_wrt code_less (candidates pf n)"
    using n by (rule candidates_strict)
  then have d: "distinct (candidates pf n)"
    by (rule sorted_wrt_irrefl_distinct) (rule code_less_irrefl)
  have "sorted_wrt (\<lambda>a b. code_less a b \<or> a = b) (candidates pf n)"
    using s by (rule sorted_wrt_mono_rel [rotated]) simp
  moreover have "\<forall>i. Suc i < length (candidates pf n)
      \<longrightarrow> candidates pf n ! i \<noteq> candidates pf n ! Suc i"
    using d by (auto simp: distinct_conv_nth)
  ultimately show ?thesis
    using phfwdReverse_candidates [OF assms] s d by blast
qed

section \<open>Evaluation on example tries\<close>

lemma wf_pf_trie_13_5: "wf_pf trie_13_5"
  by (simp add: trie_13_5_def wf_pf_inner wf_pf_leaf isSymbol_def)

lemma intToChar_simps [simp]:
  "intToChar 0 = CHR ''0''" "intToChar 1 = CHR ''1''" "intToChar 2 = CHR ''2''"
  "intToChar 3 = CHR ''3''" "intToChar 4 = CHR ''4''" "intToChar 5 = CHR ''5''"
  "intToChar 6 = CHR ''6''" "intToChar 7 = CHR ''7''" "intToChar 8 = CHR ''8''"
  "intToChar 9 = CHR ''9''" "intToChar 10 = CHR ''*''" "intToChar 11 = CHR ''#''"
  using intToChar_charToInt [of "CHR ''0''"] intToChar_charToInt [of "CHR ''1''"]
    intToChar_charToInt [of "CHR ''2''"] intToChar_charToInt [of "CHR ''3''"]
    intToChar_charToInt [of "CHR ''4''"] intToChar_charToInt [of "CHR ''5''"]
    intToChar_charToInt [of "CHR ''6''"] intToChar_charToInt [of "CHR ''7''"]
    intToChar_charToInt [of "CHR ''8''"] intToChar_charToInt [of "CHR ''9''"]
    intToChar_charToInt [of "CHR ''*''"] intToChar_charToInt [of "CHR ''#''"]
  by (simp_all add: isSymbol_def)

lemma intToChar_Suc_0 [simp]: "intToChar (Suc 0) = CHR ''1''"
  using intToChar_simps(2) by simp

lemma collect_leaf:
  "collect (Some (leaf tg)) num path =
     (if isPrefixOf tg num then [path @ drop (length tg) num] else [])"
  by (simp add: collect.simps(2) leaf_def replicate_BASE upt_BASE)

lemma collect_inner:
  "k < BASE \<Longrightarrow> collect (Some (inner f k ch)) num path =
     (if f \<noteq> None \<and> isPrefixOf (the f) num then [path @ drop (length (the f)) num] else [])
     @ collect (Some ch) num (path @ [intToChar k])"
proof -
  assume k: "k < BASE"
  have *: "concat (map (\<lambda>ich. collect (snd ich) num (path @ [intToChar (fst ich)]))
             (zip [i..<i + length cs] cs))
        = (if i \<le> k \<and> k < i + length cs
           then collect (Some ch) num (path @ [intToChar k]) else [])"
    if "\<forall>j<length cs. cs ! j = (if i + j = k then Some ch else None)" for cs i
    using that
  proof (induction cs arbitrary: i)
    case Nil
    then show ?case by auto
  next
    case (Cons c cs)
    have c: "c = (if i = k then Some ch else None)"
      using Cons.prems [rule_format, of 0] by simp
    have "\<forall>j<length cs. cs ! j = (if Suc i + j = k then Some ch else None)"
      using Cons.prems by (metis add_Suc_shift length_Cons not_less_eq nth_Cons_Suc)
    from Cons.IH [OF this] have ih: "concat (map (\<lambda>ich. collect (snd ich) num (path @ [intToChar (fst ich)]))
             (zip [Suc i..<Suc i + length cs] cs))
        = (if Suc i \<le> k \<and> k < Suc i + length cs
           then collect (Some ch) num (path @ [intToChar k]) else [])" .
    have "[i..<i + length (c # cs)] = i # [Suc i..<Suc i + length cs]"
      by (simp add: upt_rec)
    with ih c show ?case by auto
  qed
  have "\<forall>j<length ((replicate BASE None)[k := Some ch]).
          ((replicate BASE None)[k := Some ch]) ! j = (if 0 + j = k then Some ch else None)"
    by (auto simp: nth_list_update)
  from * [OF this] k show ?thesis
    by (simp add: collect.simps(2) inner_def)
qed

lemma candidates_trie_13_5: "candidates trie_13_5 ''513'' = [''1313'', ''513'']"
  by (simp add: candidates_def trie_13_5_def collect_inner collect_leaf BASE_def isPrefixOf_def)


theorem phfwdReverse_set_witness:
  "wf_pf trie_13_5 \<and> isNumberOk (Some ''513'') \<and>
   target_at trie_13_5 ''13'' = Some ''5'' \<and> prefix ''5'' ''513'' \<and>
   (\<exists>ys. phfwdReverse (Some trie_13_5) (Some ''513'')
            = Some \<lparr>numbers = map Some ys, size_pn = length ys\<rparr> \<and>
          ''1313'' \<in> set ys \<and> ''513'' \<in> set ys)"
proof -
  have ok: "isNumberOk (Some ''513'')"
    by (simp add: isSymbol_def)
  have t: "target_at trie_13_5 ''13'' = Some ''5''"
    by (simp add: trie_13_5_def inner_def leaf_def target_at_def replicate_BASE)
  have p: "prefix ''5'' ''513''" by simp
  from phfwdReverse_set [OF wf_pf_trie_13_5 ok] obtain ys where
    r: "phfwdReverse (Some trie_13_5) (Some ''513'')
          = Some \<lparr>numbers = map Some ys, size_pn = length ys\<rparr>"
    and s: "set ys = {P @ drop (length tg) ''513'' | P tg.
                list_all isSymbol P \<and> target_at trie_13_5 P = Some tg \<and>
                tg \<noteq> [] \<and> prefix tg ''513''} \<union> {''513''}"
    by blast
  have "list_all isSymbol ''13'' \<and> target_at trie_13_5 ''13'' = Some ''5'' \<and>
      ''5'' \<noteq> [] \<and> prefix ''5'' ''513'' \<and> ''1313'' = ''13'' @ drop (length ''5'') ''513''"
    using t by (simp add: isSymbol_def)
  then have "''1313'' \<in> set ys"
    unfolding s by blast
  moreover have "''513'' \<in> set ys"
    unfolding s by simp
  ultimately show ?thesis
    using wf_pf_trie_13_5 ok t p r by blast
qed

theorem phfwdReverse_sorted_witness:
  "isNumberOk (Some ''513'') \<and>
   phfwdReverse (Some trie_13_5) (Some ''513'')
     = Some \<lparr>numbers = [Some ''1313'', Some ''513''], size_pn = 2\<rparr> \<and>
   sorted_wrt code_less [''1313'', ''513''] \<and> distinct [''1313'', ''513'']"
proof -
  have ok: "isNumberOk (Some ''513'')"
    by (simp add: isSymbol_def)
  from phfwdReverse_sorted [OF ok, of trie_13_5] obtain ys where
    r: "phfwdReverse (Some trie_13_5) (Some ''513'')
          = Some \<lparr>numbers = map Some ys, size_pn = length ys\<rparr>"
    and s: "sorted_wrt code_less ys" "distinct ys"
    by blast
  have c: "phfwdReverse (Some trie_13_5) (Some ''513'')
      = Some \<lparr>numbers = map Some [''1313'', ''513''], size_pn = length [''1313'', ''513'']\<rparr>"
    using phfwdReverse_candidates [OF ok, of trie_13_5] by (simp only: candidates_trie_13_5)
  with r have "map Some ys = map Some [''1313'', ''513'']" by simp
  then have "ys = [''1313'', ''513'']"
    by (metis inj_Some inj_map_eq_map)
  with s c ok show ?thesis by simp
qed


section \<open>Consistent reverse lookup\<close>

lemma phfwdGet_valid_form:
  assumes "isNumberOk (Some y)"
  shows "\<exists>r. phfwdGet (Some pf) (Some y) = Some \<lparr>numbers = [Some r], size_pn = 1\<rparr>"
proof -
  obtain pn j where "phoneForwardGet pf y (None, 0) 0 = (pn, j)"
    by fastforce
  with assms show ?thesis
    by (simp add: phfwdGet_def)
qed

lemma getReverse_loop_filter:
  assumes ok: "\<forall>y\<in>set ys. isNumberOk (Some y)"
  shows "i \<le> length ys \<Longrightarrow>
     getReverse_loop (Some pf) num \<lparr>numbers = map Some ys, size_pn = length ys\<rparr> i ret =
       Inr (ret @ filter (\<lambda>y. phfwdGet (Some pf) (Some y)
                                 = Some \<lparr>numbers = [Some num], size_pn = 1\<rparr>) (drop i ys))"
proof (induction "length ys - i" arbitrary: i ret)
  case 0
  then show ?case
    by (subst getReverse_loop.simps) simp
next
  case (Suc m)
  then have lt: "i < length ys" and m: "m = length ys - Suc i" and le: "Suc i \<le> length ys"
    by simp_all
  let ?pn = "\<lparr>numbers = map Some ys, size_pn = length ys\<rparr>"
  let ?y = "ys ! i"
  let ?P = "\<lambda>y. phfwdGet (Some pf) (Some y) = Some \<lparr>numbers = [Some num], size_pn = 1\<rparr>"
  have d: "drop i ys = ?y # drop (Suc i) ys"
    using lt by (simp add: Cons_nth_drop_Suc)
  have "isNumberOk (Some ?y)"
    using ok lt by simp
  then obtain r where g: "phfwdGet (Some pf) (Some ?y) = Some \<lparr>numbers = [Some r], size_pn = 1\<rparr>"
    using phfwdGet_valid_form by blast
  have P: "?P ?y \<longleftrightarrow> r = num"
    using g by simp
  have ih: "getReverse_loop (Some pf) num ?pn (Suc i) ret' =
      Inr (ret' @ filter ?P (drop (Suc i) ys))" for ret'
    using Suc.hyps(1) [OF m le] .
  have step: "getReverse_loop (Some pf) num ?pn i ret =
      (if r = num then getReverse_loop (Some pf) num ?pn (Suc i) (ret @ [?y])
       else getReverse_loop (Some pf) num ?pn (Suc i) ret)"
    using lt g by (subst getReverse_loop.simps) simp
  have f: "filter ?P (drop i ys) =
      (if r = num then ?y # filter ?P (drop (Suc i) ys) else filter ?P (drop (Suc i) ys))"
    unfolding d using P by simp
  show ?case
    unfolding step f ih by simp
qed

lemma candidates_valid:
  assumes "forwardNumber pf = None" "isNumberOk (Some n)" "y \<in> set (candidates pf n)"
  shows "isNumberOk (Some y)"
proof -
  from assms(2) have n: "n \<noteq> []" "list_all isSymbol n" by simp_all
  from n(2) assms(3) have "list_all isSymbol y" by (rule candidates_symbols)
  moreover have "y \<noteq> []"
  proof (cases "y = n")
    case True
    with n show ?thesis by simp
  next
    case False
    with assms(3) have "y \<in> set (collect (Some pf) n [])"
      by (simp add: set_candidates)
    with assms(1) show ?thesis by (rule collect_root_nonempty)
  qed
  ultimately show ?thesis by simp
qed

lemma phfwdGetReverse_candidates:
  assumes "forwardNumber pf = None" "isNumberOk (Some n)"
  shows "phfwdGetReverse (Some pf) (Some n) =
     Inr (Some \<lparr>numbers = map Some (filter (\<lambda>y. phfwdGet (Some pf) (Some y)
                    = Some \<lparr>numbers = [Some n], size_pn = 1\<rparr>) (candidates pf n)),
                size_pn = length (filter (\<lambda>y. phfwdGet (Some pf) (Some y)
                    = Some \<lparr>numbers = [Some n], size_pn = 1\<rparr>) (candidates pf n))\<rparr>)"
proof -
  let ?P = "\<lambda>y. phfwdGet (Some pf) (Some y) = Some \<lparr>numbers = [Some n], size_pn = 1\<rparr>"
  let ?pn = "\<lparr>numbers = map Some (candidates pf n), size_pn = length (candidates pf n)\<rparr>"
  have "\<forall>y\<in>set (candidates pf n). isNumberOk (Some y)"
    using candidates_valid [OF assms] by blast
  then have "getReverse_loop (Some pf) n ?pn 0 [] = Inr ([] @ filter ?P (drop 0 (candidates pf n)))"
    by (rule getReverse_loop_filter) simp
  then have l: "getReverse_loop (Some pf) n ?pn 0 [] = Inr (filter ?P (candidates pf n))"
    by (simp only: append_Nil drop_0)
  have r: "phfwdReverse (Some pf) (Some n) = Some ?pn"
    using assms(2) by (rule phfwdReverse_candidates)
  have "phfwdGetReverse (Some pf) (Some n) =
      (case phfwdReverse (Some pf) (Some n) of
         None \<Rightarrow> Inl NullDeref
       | Some pn \<Rightarrow>
           (case getReverse_loop (Some pf) (the (Some n)) pn 0 [] of
              Inl e \<Rightarrow> Inl e
            | Inr ret \<Rightarrow> Inr (Some \<lparr>numbers = map Some ret, size_pn = length ret\<rparr>)))"
    unfolding phfwdGetReverse_def using assms(2) by (simp only: option.case not_True_eq_False if_False)
  then show ?thesis
    by (simp only: r l option.case sum.case option.sel)
qed

text \<open>
  Claim C2.  On a trie whose root holds no target (\<open>phfwdAdd\<close> never stores one there)
  and a valid number \<open>n\<close>, \<open>phfwdGetReverse\<close> returns the strings of \<open>phfwdReverse\<close>,
  in the same order, for which \<open>phfwdGet\<close> returns the one-element list holding \<open>n\<close>;
  hence \<open>phfwdGet\<close> maps every returned string to \<open>n\<close>.
\<close>

theorem phfwdGetReverse_filter:
  assumes "forwardNumber pf = None" "isNumberOk (Some n)"
  shows "\<exists>ys. phfwdReverse (Some pf) (Some n)
                 = Some \<lparr>numbers = map Some ys, size_pn = length ys\<rparr> \<and>
              phfwdGetReverse (Some pf) (Some n)
                 = Inr (Some \<lparr>numbers = map Some (filter (\<lambda>Y. phfwdGet (Some pf) (Some Y)
                                  = Some \<lparr>numbers = [Some n], size_pn = 1\<rparr>) ys),
                             size_pn = length (filter (\<lambda>Y. phfwdGet (Some pf) (Some Y)
                                  = Some \<lparr>numbers = [Some n], size_pn = 1\<rparr>) ys)\<rparr>) \<and>
              (\<forall>y\<in>set (filter (\<lambda>Y. phfwdGet (Some pf) (Some Y)
                                  = Some \<lparr>numbers = [Some n], size_pn = 1\<rparr>) ys).
                 phfwdGet (Some pf) (Some y) = Some \<lparr>numbers = [Some n], size_pn = 1\<rparr>)"
proof -
  let ?P = "\<lambda>Y. phfwdGet (Some pf) (Some Y) = Some \<lparr>numbers = [Some n], size_pn = 1\<rparr>"
  have r: "phfwdReverse (Some pf) (Some n) =
      Some \<lparr>numbers = map Some (candidates pf n), size_pn = length (candidates pf n)\<rparr>"
    using assms(2) by (rule phfwdReverse_candidates)
  have g: "phfwdGetReverse (Some pf) (Some n) =
      Inr (Some \<lparr>numbers = map Some (filter ?P (candidates pf n)),
                  size_pn = length (filter ?P (candidates pf n))\<rparr>)"
    using assms by (rule phfwdGetReverse_candidates)
  have h: "\<forall>y\<in>set (filter ?P (candidates pf n)). ?P y"
    by simp
  show ?thesis
    by (rule exI [of _ "candidates pf n"]) (intro conjI r g h)
qed

lemma get_trie_13_5:
  "phfwdGet (Some trie_13_5) (Some ''1313'') = Some \<lparr>numbers = [Some ''513''], size_pn = 1\<rparr>"
  "phfwdGet (Some trie_13_5) (Some ''513'') = Some \<lparr>numbers = [Some ''513''], size_pn = 1\<rparr>"
  by (simp_all add: phfwdGet_def trie_13_5_def inner_def leaf_def replicate_BASE isSymbol_def
      phoneForwardGet.simps)

theorem phfwdGetReverse_filter_witness:
  "forwardNumber trie_13_5 = None \<and> isNumberOk (Some ''513'') \<and>
   phfwdReverse (Some trie_13_5) (Some ''513'')
     = Some \<lparr>numbers = [Some ''1313'', Some ''513''], size_pn = 2\<rparr> \<and>
   phfwdGetReverse (Some trie_13_5) (Some ''513'')
     = Inr (Some \<lparr>numbers = [Some ''1313'', Some ''513''], size_pn = 2\<rparr>)"
proof -
  have root: "forwardNumber trie_13_5 = None"
    by (simp add: trie_13_5_def inner_def)
  have ok: "isNumberOk (Some ''513'')"
    by (simp add: isSymbol_def)
  let ?P = "\<lambda>Y. phfwdGet (Some trie_13_5) (Some Y) = Some \<lparr>numbers = [Some ''513''], size_pn = 1\<rparr>"
  from phfwdGetReverse_filter [OF root ok] obtain ys where
    r: "phfwdReverse (Some trie_13_5) (Some ''513'')
          = Some \<lparr>numbers = map Some ys, size_pn = length ys\<rparr>"
    and g: "phfwdGetReverse (Some trie_13_5) (Some ''513'')
          = Inr (Some \<lparr>numbers = map Some (filter ?P ys), size_pn = length (filter ?P ys)\<rparr>)"
    by blast
  have c: "phfwdReverse (Some trie_13_5) (Some ''513'')
      = Some \<lparr>numbers = map Some [''1313'', ''513''], size_pn = length [''1313'', ''513'']\<rparr>"
    using phfwdReverse_candidates [OF ok, of trie_13_5] by (simp only: candidates_trie_13_5)
  with r have "map Some ys = map Some [''1313'', ''513'']" by simp
  then have ys: "ys = [''1313'', ''513'']"
    by (metis inj_Some inj_map_eq_map)
  have "filter ?P ys = [''1313'', ''513'']"
    unfolding ys by (simp add: get_trie_13_5)
  with g c root ok show ?thesis by simp
qed

lemma candidates_trie_1_2: "candidates trie_1_2 ''1'' = [''1'']"
  by (simp add: candidates_def trie_1_2_def collect_inner collect_leaf BASE_def isPrefixOf_def)

lemma get_trie_1_2:
  "phfwdGet (Some trie_1_2) (Some ''1'') = Some \<lparr>numbers = [Some ''2''], size_pn = 1\<rparr>"
  by (simp add: phfwdGet_def trie_1_2_def inner_def leaf_def replicate_BASE isSymbol_def
      phoneForwardGet.simps)

lemma getReverse_trie_1_2:
  "phfwdGetReverse (Some trie_1_2) (Some ''1'') = Inr (Some \<lparr>numbers = [], size_pn = 0\<rparr>)"
proof -
  have "forwardNumber trie_1_2 = None"
    by (simp add: trie_1_2_def inner_def)
  moreover have "isNumberOk (Some ''1'')"
    by (simp add: isSymbol_def)
  ultimately have "phfwdGetReverse (Some trie_1_2) (Some ''1'') =
     Inr (Some \<lparr>numbers = map Some (filter (\<lambda>y. phfwdGet (Some trie_1_2) (Some y)
                    = Some \<lparr>numbers = [Some ''1''], size_pn = 1\<rparr>) (candidates trie_1_2 ''1'')),
                size_pn = length (filter (\<lambda>y. phfwdGet (Some trie_1_2) (Some y)
                    = Some \<lparr>numbers = [Some ''1''], size_pn = 1\<rparr>) (candidates trie_1_2 ''1''))\<rparr>)"
    by (rule phfwdGetReverse_candidates)
  then show ?thesis
    by (simp add: candidates_trie_1_2 get_trie_1_2)
qed

lemma add_trie_1_2:
  "phfwdAdd [] (phfwdNew []) (Some ''1'') (Some ''2'') = Inr (True, Some trie_1_2)"
  by (simp add: phfwdAdd_def trie_1_2_def inner_def leaf_def replicate_BASE isSymbol_def
      addPhoneForward.simps phfwdNew_def)

text \<open>
  Claim C10.  \<open>phfwdGetReverse\<close> may return a list of size 0: after adding \<open>1 \<mapsto> 2\<close>
  to a new trie, \<open>1\<close> resolves to \<open>2\<close> and the consistent reverse of \<open>1\<close> is empty.
  \<open>phfwdGet\<close> and \<open>phfwdReverse\<close> return at least one element on every trie and valid
  number.
\<close>

theorem getReverse_may_be_empty:
  "(phfwdAdd [] (phfwdNew []) (Some ''1'') (Some ''2'') = Inr (True, Some trie_1_2) \<and>
    phfwdGet (Some trie_1_2) (Some ''1'') = Some \<lparr>numbers = [Some ''2''], size_pn = 1\<rparr> \<and>
    phfwdGetReverse (Some trie_1_2) (Some ''1'') = Inr (Some \<lparr>numbers = [], size_pn = 0\<rparr>)) \<and>
   (\<forall>pf n. isNumberOk (Some n) \<longrightarrow>
      (\<exists>pn. phfwdGet (Some pf) (Some n) = Some pn \<and> 1 \<le> size_pn pn) \<and>
      (\<exists>pn. phfwdReverse (Some pf) (Some n) = Some pn \<and> 1 \<le> size_pn pn))"
proof (intro conjI allI impI)
  fix pf n
  assume ok: "isNumberOk (Some n)"
  from phfwdGet_valid_form [OF ok, of pf]
  show "\<exists>pn. phfwdGet (Some pf) (Some n) = Some pn \<and> 1 \<le> size_pn pn"
    by auto
  have "1 \<le> length (candidates pf n)"
    using candidates_nonempty [of pf n] by (cases "candidates pf n") simp_all
  with phfwdReverse_candidates [OF ok, of pf]
  show "\<exists>pn. phfwdReverse (Some pf) (Some n) = Some pn \<and> 1 \<le> size_pn pn"
    by simp
qed (rule add_trie_1_2 get_trie_1_2 getReverse_trie_1_2)+

theorem getReverse_may_be_empty_witness:
  "isNumberOk (Some ''513'') \<and>
   (\<exists>pn. phfwdGet (Some trie_13_5) (Some ''513'') = Some pn \<and> 1 \<le> size_pn pn) \<and>
   (\<exists>pn. phfwdReverse (Some trie_13_5) (Some ''513'') = Some pn \<and> 1 \<le> size_pn pn)"
proof -
  have ok: "isNumberOk (Some ''513'')"
    by (simp add: isSymbol_def)
  with getReverse_may_be_empty show ?thesis by blast
qed

section \<open>The interface keeps tries well-formed\<close>

text \<open>
  The hypotheses of the theorems above hold for every trie built by \<open>phfwdNew\<close>,
  \<open>phfwdAdd\<close> and \<open>phfwdRemove\<close>: it is well-formed and its root holds no target.
\<close>

lemma invariant_phfwdNew:
  "phfwdNew al = Some pf \<Longrightarrow> wf_pf pf \<and> forwardNumber pf = None"
  by (auto simp: phfwdNew_def wf_pf_fresh split: if_splits)

lemma invariant_phfwdAdd:
  assumes "wf_pf t" "forwardNumber t = None" "phfwdAdd al (Some t) num1 num2 = Inr (r, t')"
  shows "\<exists>pf'. t' = Some pf' \<and> wf_pf pf' \<and> forwardNumber pf' = None"
proof (cases r)
  case True
  with phfwdAdd_true [OF assms(1), of al num1 num2 t'] assms(3) obtain p pf' where
    "p \<noteq> []" "t' = Some pf'" "wf_pf pf'"
    "\<forall>q. list_all isSymbol q \<longrightarrow> target_at pf' q = (if q = p then Some (the num2) else target_at t q)"
    by auto
  then have "t' = Some pf' \<and> wf_pf pf' \<and> target_at pf' [] = target_at t []"
    by (auto dest: spec [of _ "[]"])
  with assms(2) show ?thesis by simp
next
  case False
  with phfwdAdd_false [OF assms(1), of al num1 num2 t'] assms(3) obtain pf' where
    "t' = Some pf'" "wf_pf pf'" "\<forall>q. list_all isSymbol q \<longrightarrow> target_at pf' q = target_at t q"
    by auto
  then have "t' = Some pf' \<and> wf_pf pf' \<and> target_at pf' [] = target_at t []"
    by (auto dest: spec [of _ "[]"])
  with assms(2) show ?thesis by simp
qed

lemma invariant_phfwdRemove:
  assumes "wf_pf t" "forwardNumber t = None"
  shows "\<exists>pf'. phfwdRemove (Some t) num = Some pf' \<and> wf_pf pf' \<and> forwardNumber pf' = None"
proof (cases "isNumberOk num")
  case False
  with assms show ?thesis by (simp add: phfwdRemove_def)
next
  case True
  then obtain n where n: "num = Some n" "n \<noteq> []" "list_all isSymbol n"
    by (cases num) auto
  then have "phfwdRemove (Some t) num = Some (prune t n)"
    by (simp add: phfwdRemove_prune)
  moreover have "wf_pf (prune t n)"
    using assms(1) by (rule wf_pf_prune)
  moreover have "target_at (prune t n) [] = target_at t []"
    using assms(1) n(2,3) by (intro target_at_prune_other) simp_all
  ultimately show ?thesis using assms(2) by simp
qed

end
